theory Spec2Isabelle
  imports Main "HOL-Library.AList" "HOL-Library.Word"
begin

section \<open>The IR the pass works on\<close>

text \<open>
  The pass of \<^verbatim>\<open>lib/SILPasses/InOutDeshadowing.cpp\<close> rewrites a function of the
  intermediate representation in place. The model keeps the objects the pass touches:

  \<^item> a value is named by the object that defines it (an argument of the entry block or
    an instruction) and a result number, as \<^verbatim>\<open>SILValue\<close> is;
  \<^item> an operand is named by its owner instruction and its operand number
    (\<^verbatim>\<open>getUser\<close>, \<^verbatim>\<open>getOperandNumber\<close>);
  \<^item> every defining object carries its use list, an ordered list of operands. One list
    serves all results of the object: the result a use refers to is read from the
    operand (\<^verbatim>\<open>Use->get().getResultNumber()\<close>).
\<close>

datatype ValueBase = SILArgument nat | SILInstruction nat

type_synonym SILValue = "ValueBase \<times> nat"

type_synonym Operand = "nat \<times> nat"

definition getDef :: "SILValue \<Rightarrow> ValueBase" where
  "getDef v = fst v"

definition getResultNumber :: "SILValue \<Rightarrow> nat" where
  "getResultNumber v = snd v"

definition getUser :: "Operand \<Rightarrow> nat" where
  "getUser u = fst u"

definition getOperandNumber :: "Operand \<Rightarrow> nat" where
  "getOperandNumber u = snd u"

text \<open>
  A location has a kind and the flag that marks code synthesised by the lowering stage.
  The pass asks two questions of it: \<^verbatim>\<open>isAutoGenerated()\<close> and
  \<^verbatim>\<open>is<SILFileLocation>()\<close>.
\<close>

datatype LocKind = RegularKind | SILFileKind

record SILLocation =
  locKind :: LocKind
  autoGenerated :: bool

definition isAutoGenerated :: "SILLocation \<Rightarrow> bool" where
  "isAutoGenerated L = autoGenerated L"

definition isSILFileLocation :: "SILLocation \<Rightarrow> bool" where
  "isSILFileLocation L = (locKind L = SILFileKind)"

text \<open>
  The instruction kinds the pass tells apart, each with its operands: a copy has its
  source as operand 0 and its destination as operand 1. Every other instruction is an
  \<open>OtherInst\<close> with any number of operands.
\<close>

datatype InstKind =
    AllocStackInst
  | DeallocStackInst SILValue
  | CopyAddrInst SILValue SILValue
  | MarkUninitializedInst SILValue
  | OtherInst "SILValue list"

fun getAllOperands :: "InstKind \<Rightarrow> SILValue list" where
  "getAllOperands AllocStackInst = []"
| "getAllOperands (DeallocStackInst v) = [v]"
| "getAllOperands (CopyAddrInst src dest) = [src, dest]"
| "getAllOperands (MarkUninitializedInst v) = [v]"
| "getAllOperands (OtherInst vs) = vs"

fun setOperand :: "InstKind \<Rightarrow> nat \<Rightarrow> SILValue \<Rightarrow> InstKind" where
  "setOperand AllocStackInst n w = AllocStackInst"
| "setOperand (DeallocStackInst v) n w = (if n = 0 then DeallocStackInst w else DeallocStackInst v)"
| "setOperand (CopyAddrInst src dest) n w =
     (if n = 0 then CopyAddrInst w dest else if n = 1 then CopyAddrInst src w
      else CopyAddrInst src dest)"
| "setOperand (MarkUninitializedInst v) n w =
     (if n = 0 then MarkUninitializedInst w else MarkUninitializedInst v)"
| "setOperand (OtherInst vs) n w = OtherInst (vs[n := w])"

record Inst =
  instKind :: InstKind
  instLoc :: SILLocation
  instUses :: "Operand list"

record Arg =
  argIsAddress :: bool
  argUses :: "Operand list"

text \<open>
  A function: the conventions of its declared parameters (\<open>True\<close> for an indirect
  in-out parameter), the arguments of its entry block (\<open>None\<close> for a declaration
  without a body, where \<^verbatim>\<open>Fn.empty()\<close> holds) and its instructions in program order,
  each under its identity. The pass never asks which block an instruction is in, and
  of the block arguments it reads those of the entry block only.
\<close>

record SILFunction =
  interfaceParameters :: "bool list"
  entryBBArgs :: "Arg list option"
  insts :: "(nat \<times> Inst) list"

text \<open>The two statistics of the pass are unsigned machine counters.\<close>

record Statistics =
  NumShadowsRemoved :: "32 word"
  NumShadowsKept :: "32 word"

text \<open>
  What stops a run: an assertion of the source or of the IR library, or a pointer to an
  object that is not in the function.
\<close>

datatype error =
    StalePointer
  | EraseWithUses
  | NotAnAddress
  | FrontOfEmpty
  | IndexOutOfRange

section \<open>Reading the IR\<close>

definition getInst :: "SILFunction \<Rightarrow> nat \<Rightarrow> Inst option" where
  "getInst F i = map_of (insts F) i"

definition getArg :: "SILFunction \<Rightarrow> nat \<Rightarrow> Arg option" where
  "getArg F n =
     (case entryBBArgs F of
        None \<Rightarrow> None
      | Some as \<Rightarrow> if n < length as then Some (as ! n) else None)"

definition getUses :: "SILFunction \<Rightarrow> ValueBase \<Rightarrow> Operand list option" where
  "getUses F w =
     (case w of
        SILArgument n \<Rightarrow> map_option argUses (getArg F n)
      | SILInstruction i \<Rightarrow> map_option instUses (getInst F i))"

text \<open>\<^verbatim>\<open>Operand::get\<close>: the value an operand refers to.\<close>

definition operandGet :: "SILFunction \<Rightarrow> Operand \<Rightarrow> SILValue option" where
  "operandGet F u =
     (case getInst F (getUser u) of
        None \<Rightarrow> None
      | Some x \<Rightarrow>
          if getOperandNumber u < length (getAllOperands (instKind x))
          then Some (getAllOperands (instKind x) ! getOperandNumber u)
          else None)"

text \<open>
  \<^verbatim>\<open>dyn_cast<AllocStackInst>\<close> and \<^verbatim>\<open>dyn_cast<MarkUninitializedInst>\<close> on a value:
  the casts test the kind of the object that defines the value and give back that
  object (for the wrapper, the model gives back its operand, which is all the pass
  reads of it). The answer of the source is a pointer to the instruction, so the
  result number of the value plays no part in the cast.
\<close>

definition dyn_cast_AllocStackInst :: "SILFunction \<Rightarrow> SILValue \<Rightarrow> nat option" where
  "dyn_cast_AllocStackInst F v =
     (case getDef v of
        SILArgument n \<Rightarrow> None
      | SILInstruction i \<Rightarrow>
          (case getInst F i of
             None \<Rightarrow> None
           | Some x \<Rightarrow> (case instKind x of AllocStackInst \<Rightarrow> Some i | _ \<Rightarrow> None)))"

definition dyn_cast_MarkUninitializedInst :: "SILFunction \<Rightarrow> SILValue \<Rightarrow> SILValue option" where
  "dyn_cast_MarkUninitializedInst F v =
     (case getDef v of
        SILArgument n \<Rightarrow> None
      | SILInstruction i \<Rightarrow>
          (case getInst F i of
             None \<Rightarrow> None
           | Some x \<Rightarrow> (case instKind x of MarkUninitializedInst w \<Rightarrow> Some w | _ \<Rightarrow> None)))"

section \<open>Changing the IR\<close>

text \<open>
  Modelled from the spec: the use lists and the operations on operands belong to the IR
  library, which is declared outside the source file of the pass. Uses are entries
  owned by the use list of the value they refer to; an operand is a member of at most
  one list, and unlinking it needs no knowledge of the list it is in. \<open>mapUses\<close>
  rewrites every use list of the function, each under the object that owns it.
\<close>

definition mapUses :: "(ValueBase \<Rightarrow> Operand list \<Rightarrow> Operand list) \<Rightarrow> SILFunction \<Rightarrow> SILFunction" where
  "mapUses g F =
     F\<lparr> entryBBArgs :=
          map_option
            (\<lambda>as. map (\<lambda>(n, a). a\<lparr>argUses := g (SILArgument n) (argUses a)\<rparr>) (enumerate 0 as))
            (entryBBArgs F),
        insts := AList.map_ran (\<lambda>i x. x\<lparr>instUses := g (SILInstruction i) (instUses x)\<rparr>) (insts F) \<rparr>"

text \<open>
  Modelled from the spec: \<^verbatim>\<open>Operand::set\<close> rewrites the referenced value of the
  operand in place and leaves the consumer instruction otherwise untouched. It unlinks
  the operand from the list it is in, stores the new value in the owner's operand
  slot, and links the operand at the head of the new value's list.
\<close>

definition operandSet :: "SILFunction \<Rightarrow> Operand \<Rightarrow> SILValue \<Rightarrow> SILFunction" where
  "operandSet F u v =
     (let F1 = mapUses (\<lambda>w. removeAll u) F;
          F2 = F1\<lparr> insts :=
                 AList.map_entry (getUser u)
                   (\<lambda>x. x\<lparr>instKind := setOperand (instKind x) (getOperandNumber u) v\<rparr>)
                   (insts F1) \<rparr>
      in mapUses (\<lambda>w us. if w = getDef v then u # us else us) F2)"

text \<open>
  Modelled from the spec: \<^verbatim>\<open>SILInstruction::eraseFromParent\<close> is declared outside the
  source file of the pass. Erasing an instruction takes it out of the function and
  detaches its operands from the use lists they are in; the erased instruction must
  have no use left, since an operand would dangle otherwise.
\<close>

definition eraseFromParent :: "SILFunction \<Rightarrow> nat \<Rightarrow> error + SILFunction" where
  "eraseFromParent F i =
     (case getInst F i of
        None \<Rightarrow> Inl StalePointer
      | Some x \<Rightarrow>
          if instUses x \<noteq> [] then Inl EraseWithUses
          else Inr (mapUses (\<lambda>w. filter (\<lambda>u. getUser u \<noteq> i))
                      (F\<lparr> insts := AList.delete i (insts F) \<rparr>)))"

section \<open>The promoter\<close>

text \<open>
  One round of the \<^verbatim>\<open>while\<close> loop of \<^verbatim>\<open>promoteShadow\<close>, its condition included:
  \<open>Break\<close> when the allocation has no use left, \<open>Continue\<close> with the function after
  the round, \<open>Abort\<close> when an assertion stops the run.
\<close>

datatype step = Break | Continue SILFunction | Abort error

definition eraseAndContinue :: "SILFunction \<Rightarrow> nat \<Rightarrow> step" where
  "eraseAndContinue F User =
     (case eraseFromParent F User of Inl e \<Rightarrow> Abort e | Inr F' \<Rightarrow> Continue F')"

definition promoteShadowStep :: "SILFunction \<Rightarrow> nat \<Rightarrow> nat \<Rightarrow> step" where
  "promoteShadowStep F Alloc InOutArg =
     (case getInst F Alloc of
        None \<Rightarrow> Abort StalePointer
      | Some A \<Rightarrow>
          (case instUses A of
             [] \<Rightarrow> Break
           | Use # rest \<Rightarrow>
               (case operandGet F Use of
                  None \<Rightarrow> Abort StalePointer
                | Some v \<Rightarrow>
                    if getResultNumber v = 0 then eraseAndContinue F (getUser Use)
                    else
                      (case map_option instKind (getInst F (getUser Use)) of
                         Some (CopyAddrInst Src Dest) \<Rightarrow>
                           if Src = (SILArgument InOutArg, 0) \<or> Dest = (SILArgument InOutArg, 0)
                           then eraseAndContinue F (getUser Use)
                           else Continue (operandSet F Use (SILArgument InOutArg, 0))
                       | _ \<Rightarrow> Continue (operandSet F Use (SILArgument InOutArg, 0))))))"

definition useCount :: "SILFunction \<Rightarrow> nat \<Rightarrow> nat" where
  "useCount F Alloc =
     (case getInst F Alloc of None \<Rightarrow> 0 | Some A \<Rightarrow> length (instUses A))"

text \<open>
  A round that continues leaves the allocation with fewer uses: it has either erased the
  owner of the first use or moved that use to the argument's list.
\<close>

lemma promoteShadowStep_useCount:
  assumes step: "promoteShadowStep F Alloc InOutArg = Continue F'"
  shows "useCount F' Alloc < useCount F Alloc"
proof -
  from step obtain A Use rest where A: "getInst F Alloc = Some A" "instUses A = Use # rest"
    by (auto simp: promoteShadowStep_def split: option.splits list.splits)
  have erase: "useCount G Alloc < useCount F Alloc"
    if "eraseFromParent F (getUser Use) = Inr G" for G
  proof -
    from that A have ne: "getUser Use \<noteq> Alloc"
      by (auto simp: eraseFromParent_def split: option.splits if_splits)
    from that have "G = mapUses (\<lambda>w. filter (\<lambda>u. getUser u \<noteq> getUser Use))
                        (F\<lparr>insts := AList.delete (getUser Use) (insts F)\<rparr>)"
      by (auto simp: eraseFromParent_def split: option.splits if_splits)
    with ne A have "useCount G Alloc = length (filter (\<lambda>u. getUser u \<noteq> getUser Use) rest)"
      by (simp add: useCount_def getInst_def mapUses_def map_ran_conv delete_conv')
    also have "\<dots> \<le> length rest" by simp
    finally show ?thesis using A by (simp add: useCount_def)
  qed
  have redirect: "useCount (operandSet F Use (SILArgument InOutArg, 0)) Alloc < useCount F Alloc"
  proof -
    have "useCount (operandSet F Use (SILArgument InOutArg, 0)) Alloc = length (removeAll Use rest)"
      using A
      by (auto simp: useCount_def operandSet_def Let_def getInst_def mapUses_def map_ran_conv
          map_of_map_entry getDef_def)
    also have "\<dots> \<le> length rest" by (simp add: removeAll_filter_not_eq)
    finally show ?thesis using A by (simp add: useCount_def)
  qed
  from step A show ?thesis
    by (auto simp: promoteShadowStep_def eraseAndContinue_def erase redirect
        split: option.splits if_splits sum.splits InstKind.splits)
qed

text \<open>The loop, and the number of rounds it makes before it leaves or stops.\<close>

function promoteShadowLoop :: "SILFunction \<Rightarrow> nat \<Rightarrow> nat \<Rightarrow> error + SILFunction" where
  "promoteShadowLoop F Alloc InOutArg =
     (case promoteShadowStep F Alloc InOutArg of
        Break \<Rightarrow> Inr F
      | Abort e \<Rightarrow> Inl e
      | Continue F' \<Rightarrow> promoteShadowLoop F' Alloc InOutArg)"
  by pat_completeness auto
termination
  by (relation "measure (\<lambda>(F, Alloc, InOutArg). useCount F Alloc)")
     (simp_all add: promoteShadowStep_useCount)

function promoteShadowRounds :: "SILFunction \<Rightarrow> nat \<Rightarrow> nat \<Rightarrow> nat" where
  "promoteShadowRounds F Alloc InOutArg =
     (case promoteShadowStep F Alloc InOutArg of
        Break \<Rightarrow> 0
      | Abort e \<Rightarrow> 0
      | Continue F' \<Rightarrow> Suc (promoteShadowRounds F' Alloc InOutArg))"
  by pat_completeness auto
termination
  by (relation "measure (\<lambda>(F, Alloc, InOutArg). useCount F Alloc)")
     (simp_all add: promoteShadowStep_useCount)

declare promoteShadowLoop.simps [simp del] promoteShadowRounds.simps [simp del]

text \<open>
  \<^verbatim>\<open>promoteShadow\<close>: the loop, then the allocation itself is erased.
\<close>

definition promoteShadow :: "SILFunction \<Rightarrow> nat \<Rightarrow> nat \<Rightarrow> error + SILFunction" where
  "promoteShadow F Alloc InOutArg =
     (case promoteShadowLoop F Alloc InOutArg of
        Inl e \<Rightarrow> Inl e
      | Inr F' \<Rightarrow> eraseFromParent F' Alloc)"

section \<open>Candidate identification\<close>

text \<open>
  \<^verbatim>\<open>isCopyToOrFromStack\<close>: the use \<open>UI\<close> of an in-out argument is a copy to or from
  a stack allocation. The answer is the allocation, or \<open>None\<close> for the null pointer.
\<close>

definition isCopyToOrFromStack :: "SILFunction \<Rightarrow> Operand \<Rightarrow> nat option" where
  "isCopyToOrFromStack F UI =
     (case getInst F (getUser UI) of
        None \<Rightarrow> None
      | Some CAI \<Rightarrow>
          (case instKind CAI of
             CopyAddrInst Src Dest \<Rightarrow>
               if \<not> isAutoGenerated (instLoc CAI) \<and> \<not> isSILFileLocation (instLoc CAI)
               then None
               else
                 (let OtherOp = (if getOperandNumber UI = 0 then Dest else Src);
                      OtherOp' = (case dyn_cast_MarkUninitializedInst F OtherOp of
                                    Some MUIOperand \<Rightarrow> MUIOperand
                                  | None \<Rightarrow> OtherOp)
                  in dyn_cast_AllocStackInst F OtherOp')
           | _ \<Rightarrow> None))"

text \<open>
  The scan of \<^verbatim>\<open>processInOutValue\<close> over the uses of the argument, in the order of
  the use list: the allocation of the first use that the recognizer accepts.
\<close>

fun findShadow :: "SILFunction \<Rightarrow> Operand list \<Rightarrow> nat option" where
  "findShadow F [] = None"
| "findShadow F (UI # rest) =
     (case isCopyToOrFromStack F UI of
        Some ASI \<Rightarrow> Some ASI
      | None \<Rightarrow> findShadow F rest)"

text \<open>
  \<^verbatim>\<open>processInOutValue\<close>: the argument is named by its position among the arguments
  of the entry block. The result says whether the shadow was promoted away.
\<close>

definition processInOutValue :: "SILFunction \<Rightarrow> nat \<Rightarrow> error + (bool \<times> SILFunction)" where
  "processInOutValue F InOutArg =
     (case getArg F InOutArg of
        None \<Rightarrow> Inl StalePointer
      | Some A \<Rightarrow>
          if \<not> argIsAddress A then Inl NotAnAddress
          else
            (case findShadow F (argUses A) of
               Some ASI \<Rightarrow>
                 (case promoteShadow F ASI InOutArg of
                    Inl e \<Rightarrow> Inl e
                  | Inr F' \<Rightarrow> Inr (True, F'))
             | None \<Rightarrow> Inr (False, F)))"

section \<open>The drivers\<close>

text \<open>\<^verbatim>\<open>EntryBlock.getBBArgs()[arg]\<close>, with the range check of the array.\<close>

definition getBBArg :: "SILFunction \<Rightarrow> nat \<Rightarrow> error + nat" where
  "getBBArg F arg =
     (case entryBBArgs F of
        None \<Rightarrow> Inl FrontOfEmpty
      | Some as \<Rightarrow> if arg < length as then Inr arg else Inl IndexOutOfRange)"

text \<open>
  The loop over the declared parameters in \<^verbatim>\<open>performInOutDeshadowing\<close>: the first
  argument is the rest of the parameter list, \<open>arg\<close> the position reached.
\<close>

fun performParameters ::
  "bool list \<Rightarrow> nat \<Rightarrow> SILFunction \<Rightarrow> Statistics \<Rightarrow> error + (SILFunction \<times> Statistics)" where
  "performParameters [] arg Fn st = Inr (Fn, st)"
| "performParameters (isIndirectInOut # params) arg Fn st =
     (if \<not> isIndirectInOut then performParameters params (Suc arg) Fn st
      else
        (case getBBArg Fn arg of
           Inl e \<Rightarrow> Inl e
         | Inr InOutArg \<Rightarrow>
             (case processInOutValue Fn InOutArg of
                Inl e \<Rightarrow> Inl e
              | Inr (promoted, Fn') \<Rightarrow>
                  if promoted
                  then performParameters params (Suc arg) Fn'
                         (st\<lparr>NumShadowsRemoved := NumShadowsRemoved st + 1\<rparr>)
                  else performParameters params (Suc arg) Fn'
                         (st\<lparr>NumShadowsKept := NumShadowsKept st + 1\<rparr>))))"

text \<open>\<^verbatim>\<open>performInOutDeshadowing\<close>: every function of the module, in order.\<close>

fun performInOutDeshadowing ::
  "SILFunction list \<Rightarrow> Statistics \<Rightarrow> error + (SILFunction list \<times> Statistics)" where
  "performInOutDeshadowing [] st = Inr ([], st)"
| "performInOutDeshadowing (Fn # M) st =
     (if entryBBArgs Fn = None
      then (case performInOutDeshadowing M st of
              Inl e \<Rightarrow> Inl e
            | Inr (M', st') \<Rightarrow> Inr (Fn # M', st'))
      else (case performParameters (interfaceParameters Fn) 0 Fn st of
              Inl e \<Rightarrow> Inl e
            | Inr (Fn', st') \<Rightarrow>
                (case performInOutDeshadowing M st' of
                   Inl e \<Rightarrow> Inl e
                 | Inr (M', st'') \<Rightarrow> Inr (Fn' # M', st''))))"

text \<open>
  The loop of \<^verbatim>\<open>InOutDeshadowing::runOnFunction\<close>, and the entry point: it takes the
  front block of the function without asking whether there is one.
\<close>

fun runParameters ::
  "bool list \<Rightarrow> nat \<Rightarrow> SILFunction \<Rightarrow> Statistics \<Rightarrow> error + (SILFunction \<times> Statistics)" where
  "runParameters [] arg F st = Inr (F, st)"
| "runParameters (isIndirectInOut # params) arg F st =
     (if \<not> isIndirectInOut then runParameters params (Suc arg) F st
      else
        (case getBBArg F arg of
           Inl e \<Rightarrow> Inl e
         | Inr InOutArg \<Rightarrow>
             (case processInOutValue F InOutArg of
                Inl e \<Rightarrow> Inl e
              | Inr (promoted, F') \<Rightarrow>
                  if promoted
                  then runParameters params (Suc arg) F'
                         (st\<lparr>NumShadowsRemoved := NumShadowsRemoved st + 1\<rparr>)
                  else runParameters params (Suc arg) F'
                         (st\<lparr>NumShadowsKept := NumShadowsKept st + 1\<rparr>))))"

definition runOnFunction :: "SILFunction \<Rightarrow> Statistics \<Rightarrow> error + (SILFunction \<times> Statistics)" where
  "runOnFunction F st =
     (case entryBBArgs F of
        None \<Rightarrow> Inl FrontOfEmpty
      | Some EntryBlock \<Rightarrow> runParameters (interfaceParameters F) 0 F st)"

section \<open>Well-formed functions\<close>

text \<open>
  The use lists are consistent with the operands: every operand of an instruction is a
  member of the use list of the object it names, every member of a use list is an
  operand that names the owner of the list, and an instruction without a result has no
  use. Instructions have distinct identities.
\<close>

definition operandLinked :: "SILFunction \<Rightarrow> Operand \<Rightarrow> bool" where
  "operandLinked F u =
     (case operandGet F u of
        None \<Rightarrow> False
      | Some v \<Rightarrow> (case getUses F (getDef v) of None \<Rightarrow> False | Some us \<Rightarrow> u \<in> set us))"

definition useNames :: "SILFunction \<Rightarrow> ValueBase \<Rightarrow> Operand \<Rightarrow> bool" where
  "useNames F w u = (case operandGet F u of None \<Rightarrow> False | Some v \<Rightarrow> getDef v = w)"

fun hasResult :: "InstKind \<Rightarrow> bool" where
  "hasResult AllocStackInst = True"
| "hasResult (DeallocStackInst v) = False"
| "hasResult (CopyAddrInst src dest) = False"
| "hasResult (MarkUninitializedInst v) = True"
| "hasResult (OtherInst vs) = True"

definition instWellFormed :: "SILFunction \<Rightarrow> nat \<Rightarrow> Inst \<Rightarrow> bool" where
  "instWellFormed F i x =
     (list_all (\<lambda>k. operandLinked F (i, k)) [0..<length (getAllOperands (instKind x))]
      \<and> list_all (useNames F (SILInstruction i)) (instUses x)
      \<and> (hasResult (instKind x) \<or> instUses x = []))"

definition argWellFormed :: "SILFunction \<Rightarrow> nat \<Rightarrow> Arg \<Rightarrow> bool" where
  "argWellFormed F n a = list_all (useNames F (SILArgument n)) (argUses a)"

definition wellFormed :: "SILFunction \<Rightarrow> bool" where
  "wellFormed F =
     (distinct (map fst (insts F))
      \<and> list_all (\<lambda>(i, x). instWellFormed F i x) (insts F)
      \<and> (case entryBBArgs F of
            None \<Rightarrow> True
          | Some as \<Rightarrow> list_all (\<lambda>(n, a). argWellFormed F n a) (enumerate 0 as)))"

section \<open>What promotion does to an instruction\<close>

text \<open>
  \<open>redirectValue\<close> replaces every result of the allocation by the in-out argument;
  \<open>mapOperands\<close> applies a replacement to every operand of an instruction.
\<close>

definition redirectValue :: "nat \<Rightarrow> nat \<Rightarrow> SILValue \<Rightarrow> SILValue" where
  "redirectValue Alloc InOutArg v =
     (if getDef v = SILInstruction Alloc then (SILArgument InOutArg, 0) else v)"

fun mapOperands :: "(SILValue \<Rightarrow> SILValue) \<Rightarrow> InstKind \<Rightarrow> InstKind" where
  "mapOperands h AllocStackInst = AllocStackInst"
| "mapOperands h (DeallocStackInst v) = DeallocStackInst (h v)"
| "mapOperands h (CopyAddrInst src dest) = CopyAddrInst (h src) (h dest)"
| "mapOperands h (MarkUninitializedInst v) = MarkUninitializedInst (h v)"
| "mapOperands h (OtherInst vs) = OtherInst (map h vs)"

text \<open>
  The instructions that promotion erases beside the allocation: the consumers of result
  0, and the copies on the allocation whose other operand is the in-out argument or the
  allocation again.
\<close>

fun copyOfShadow :: "nat \<Rightarrow> nat \<Rightarrow> InstKind \<Rightarrow> bool" where
  "copyOfShadow Alloc InOutArg (CopyAddrInst src dest) =
     ((src = (SILArgument InOutArg, 0) \<and> getDef dest = SILInstruction Alloc)
      \<or> (dest = (SILArgument InOutArg, 0) \<and> getDef src = SILInstruction Alloc)
      \<or> (getDef src = SILInstruction Alloc \<and> getDef dest = SILInstruction Alloc))"
| "copyOfShadow Alloc InOutArg k = False"

definition erasedByPromotion :: "nat \<Rightarrow> nat \<Rightarrow> InstKind \<Rightarrow> bool" where
  "erasedByPromotion Alloc InOutArg k =
     ((SILInstruction Alloc, 0) \<in> set (getAllOperands k) \<or> copyOfShadow Alloc InOutArg k)"

text \<open>
  The state of an instruction while the loop runs: some of its operands on the address
  of the allocation have been redirected, and a copy has not been redirected into a
  copy from the argument to the argument. The loop keeps \<open>promotionInvariant\<close> between
  the function it started from and the function it has reached.
\<close>

definition redirected :: "nat \<Rightarrow> nat \<Rightarrow> SILValue \<Rightarrow> SILValue \<Rightarrow> bool" where
  "redirected Alloc InOutArg v v' =
     (v' = v \<or> (getDef v = SILInstruction Alloc \<and> getResultNumber v \<noteq> 0
               \<and> v' = (SILArgument InOutArg, 0)))"

fun kindRedirected :: "nat \<Rightarrow> nat \<Rightarrow> InstKind \<Rightarrow> InstKind \<Rightarrow> bool" where
  "kindRedirected a p AllocStackInst AllocStackInst = True"
| "kindRedirected a p (DeallocStackInst v) (DeallocStackInst v') = redirected a p v v'"
| "kindRedirected a p (CopyAddrInst s d) (CopyAddrInst s' d') =
     (redirected a p s s' \<and> redirected a p d d'
      \<and> \<not> (s' = (SILArgument p, 0) \<and> d' \<noteq> d) \<and> \<not> (d' = (SILArgument p, 0) \<and> s' \<noteq> s))"
| "kindRedirected a p (MarkUninitializedInst v) (MarkUninitializedInst v') = redirected a p v v'"
| "kindRedirected a p (OtherInst vs) (OtherInst vs') = list_all2 (redirected a p) vs vs'"
| "kindRedirected a p k k' = False"

definition promotionInvariant :: "nat \<Rightarrow> nat \<Rightarrow> SILFunction \<Rightarrow> SILFunction \<Rightarrow> bool" where
  "promotionInvariant a p F G =
     ((\<forall>i y. getInst G i = Some y \<longrightarrow>
          (\<exists>x. getInst F i = Some x \<and> instLoc y = instLoc x
               \<and> kindRedirected a p (instKind x) (instKind y)))
      \<and> (\<forall>i x. getInst F i = Some x \<longrightarrow> getInst G i = None \<longrightarrow>
            erasedByPromotion a p (instKind x)))"

section \<open>The precondition of the promoter\<close>

text \<open>
  The allocation is a stack allocation, and each of its uses is either a use of its
  address or a use of result 0 by an instruction that is not used itself (a
  deallocation or something similar).
\<close>

definition consumerUnused :: "SILFunction \<Rightarrow> Operand \<Rightarrow> bool" where
  "consumerUnused F u = (case getInst F (getUser u) of None \<Rightarrow> False | Some x \<Rightarrow> instUses x = [])"

definition lifecycleOrAddressUse :: "SILFunction \<Rightarrow> Operand \<Rightarrow> bool" where
  "lifecycleOrAddressUse F u =
     (case operandGet F u of
        None \<Rightarrow> False
      | Some v \<Rightarrow> getResultNumber v \<noteq> 0 \<or> consumerUnused F u)"

definition promotable :: "SILFunction \<Rightarrow> nat \<Rightarrow> bool" where
  "promotable F Alloc =
     (case getInst F Alloc of
        None \<Rightarrow> False
      | Some A \<Rightarrow> instKind A = AllocStackInst \<and> list_all (lifecycleOrAddressUse F) (instUses A))"

section \<open>Result kinds\<close>

text \<open>
  A stack allocation has two results: result 0 is its lifecycle handle, consumed by
  deallocation and the like, and result 1 is its address, consumed by memory
  operations. A memory copy and a mark-uninitialized wrapper take addresses: an
  operand of theirs that is a result of a stack allocation is its address result.
\<close>

definition isAllocStack :: "SILFunction \<Rightarrow> nat \<Rightarrow> bool" where
  "isAllocStack F a = (case getInst F a of None \<Rightarrow> False | Some A \<Rightarrow> instKind A = AllocStackInst)"

definition addressResult :: "nat \<Rightarrow> SILValue" where
  "addressResult a = (SILInstruction a, 1)"

definition addressOperand :: "SILFunction \<Rightarrow> SILValue \<Rightarrow> bool" where
  "addressOperand F v =
     (case getDef v of
        SILArgument n \<Rightarrow> True
      | SILInstruction i \<Rightarrow> isAllocStack F i \<longrightarrow> v = addressResult i)"

definition takesAddresses :: "SILFunction \<Rightarrow> bool" where
  "takesAddresses F =
     list_all
       (\<lambda>(i, x). case instKind x of
                   CopyAddrInst Src Dest \<Rightarrow> addressOperand F Src \<and> addressOperand F Dest
                 | MarkUninitializedInst v \<Rightarrow> addressOperand F v
                 | _ \<Rightarrow> True)
       (insts F)"

section \<open>The recognizer in the words of the specification\<close>

text \<open>
  The gate on the location of a copy, the look through one mark-uninitialized wrapper,
  and the condition under which a use is the copy of a shadow \<open>a\<close>: the owner of the
  use is a copy that passes the gate, and its other operand, looked through one
  wrapper, is exactly the address result of the stack allocation \<open>a\<close>.
\<close>

definition passesGate :: "SILLocation \<Rightarrow> bool" where
  "passesGate L = (isAutoGenerated L \<or> isSILFileLocation L)"

definition lookThroughMarkUninitialized :: "SILFunction \<Rightarrow> SILValue \<Rightarrow> SILValue" where
  "lookThroughMarkUninitialized F v =
     (case getDef v of
        SILArgument n \<Rightarrow> v
      | SILInstruction i \<Rightarrow>
          (case getInst F i of
             None \<Rightarrow> v
           | Some x \<Rightarrow> (case instKind x of MarkUninitializedInst w \<Rightarrow> w | _ \<Rightarrow> v)))"

definition shadowCopy :: "SILFunction \<Rightarrow> Operand \<Rightarrow> nat \<Rightarrow> bool" where
  "shadowCopy F UI a =
     (case getInst F (getUser UI) of
        None \<Rightarrow> False
      | Some CAI \<Rightarrow>
          (case instKind CAI of
             CopyAddrInst Src Dest \<Rightarrow>
               passesGate (instLoc CAI)
               \<and> lookThroughMarkUninitialized F (if getOperandNumber UI = 0 then Dest else Src)
                   = addressResult a
               \<and> isAllocStack F a
           | _ \<Rightarrow> False))"

section \<open>Counting\<close>

text \<open>
  The number of stack allocations of a function, and the number of parameters of the
  indirect in-out convention.
\<close>

definition isAlloc :: "nat \<times> Inst \<Rightarrow> bool" where
  "isAlloc e = (instKind (snd e) = AllocStackInst)"

definition allocCount :: "SILFunction \<Rightarrow> nat" where
  "allocCount F = length (filter isAlloc (insts F))"

definition inOutCount :: "bool list \<Rightarrow> nat" where
  "inOutCount params = length (filter (\<lambda>isIndirectInOut. isIndirectInOut) params)"

section \<open>What a run keeps and what it erases\<close>




section \<open>Functions without a shadow\<close>

text \<open>
  No shadow is left from position \<open>arg\<close> on: no in-out parameter of the list has an
  argument with a use that the recognizer accepts.
\<close>

fun noShadowFrom :: "bool list \<Rightarrow> nat \<Rightarrow> SILFunction \<Rightarrow> bool" where
  "noShadowFrom [] arg F = True"
| "noShadowFrom (isIndirectInOut # params) arg F =
     ((\<not> isIndirectInOut
       \<or> (case getArg F arg of None \<Rightarrow> True | Some A \<Rightarrow> findShadow F (argUses A) = None))
      \<and> noShadowFrom params (Suc arg) F)"

text \<open>
  The part of the arguments that the drivers test before they process a parameter:
  how many there are, and which of them are addresses.
\<close>

definition argShape :: "SILFunction \<Rightarrow> bool list option" where
  "argShape F = map_option (map argIsAddress) (entryBBArgs F)"

fun argsAccepted :: "bool list \<Rightarrow> nat \<Rightarrow> bool list option \<Rightarrow> bool" where
  "argsAccepted [] arg shape = True"
| "argsAccepted (isIndirectInOut # params) arg shape =
     ((\<not> isIndirectInOut
       \<or> (case shape of None \<Rightarrow> False | Some as \<Rightarrow> arg < length as \<and> as ! arg))
      \<and> argsAccepted params (Suc arg) shape)"

section \<open>The promotions of a run\<close>

text \<open>
  The calls of \<^verbatim>\<open>promoteShadow\<close> that the loop over the parameters makes, in order: the
  allocation and the position of the in-out argument of each call.
\<close>

definition shadowFound :: "SILFunction \<Rightarrow> nat \<Rightarrow> nat option" where
  "shadowFound F arg = (case getArg F arg of None \<Rightarrow> None | Some A \<Rightarrow> findShadow F (argUses A))"

fun promotions :: "bool list \<Rightarrow> nat \<Rightarrow> SILFunction \<Rightarrow> (nat \<times> nat) list" where
  "promotions [] arg F = []"
| "promotions (isIndirectInOut # params) arg F =
     (if \<not> isIndirectInOut then promotions params (Suc arg) F
      else
        (case getBBArg F arg of
           Inl e \<Rightarrow> []
         | Inr InOutArg \<Rightarrow>
             (case processInOutValue F InOutArg of
                Inl e \<Rightarrow> []
              | Inr (promoted, F') \<Rightarrow>
                  (case shadowFound F InOutArg of
                     Some ASI \<Rightarrow> if promoted then [(ASI, InOutArg)] else []
                   | None \<Rightarrow> [])
                  @ promotions params (Suc arg) F')))"

definition promotedPairs :: "SILFunction \<Rightarrow> (nat \<times> nat) list" where
  "promotedPairs F = promotions (interfaceParameters F) 0 F"

text \<open>
  The number of in-out parameters that the module driver processes in a function, and
  the number of them that it promotes: none for a declaration without a body, which
  the driver skips.
\<close>

definition processedInOut :: "SILFunction \<Rightarrow> nat" where
  "processedInOut Fn = (if entryBBArgs Fn = None then 0 else inOutCount (interfaceParameters Fn))"

definition promotedCount :: "SILFunction \<Rightarrow> nat" where
  "promotedCount Fn = (if entryBBArgs Fn = None then 0 else length (promotedPairs Fn))"

section \<open>Single shadows\<close>

text \<open>
  The stack allocation behind an operand of a copy, as the recognizer finds it: the cast
  of the operand, or of the operand of the mark-uninitialized wrapper that defines it.
\<close>

definition shadowTarget :: "SILFunction \<Rightarrow> SILValue \<Rightarrow> nat option" where
  "shadowTarget F OtherOp =
     dyn_cast_AllocStackInst F
       (case dyn_cast_MarkUninitializedInst F OtherOp of
          Some MUIOperand \<Rightarrow> MUIOperand
        | None \<Rightarrow> OtherOp)"

text \<open>
  The allocations that the recognizer answers on the uses of an argument, in the order
  of the use list.
\<close>

definition shadowsOf :: "SILFunction \<Rightarrow> nat \<Rightarrow> nat list" where
  "shadowsOf F arg =
     (case getArg F arg of
        None \<Rightarrow> []
      | Some A \<Rightarrow> List.map_filter (isCopyToOrFromStack F) (argUses A))"

text \<open>
  An allocation is chained when a copy that passes the gate has a result of the
  allocation as one operand and, behind its other operand, another stack allocation.
\<close>

definition linksAllocation :: "SILFunction \<Rightarrow> nat \<Rightarrow> SILValue \<Rightarrow> SILValue \<Rightarrow> bool" where
  "linksAllocation F a used other =
     (getDef used = SILInstruction a
      \<and> (case shadowTarget F other of None \<Rightarrow> False | Some b \<Rightarrow> b \<noteq> a))"

definition chained :: "SILFunction \<Rightarrow> nat \<Rightarrow> bool" where
  "chained F a =
     list_ex
       (\<lambda>(i, x). case instKind x of
                   CopyAddrInst Src Dest \<Rightarrow>
                     passesGate (instLoc x)
                     \<and> (linksAllocation F a Src Dest \<or> linksAllocation F a Dest Src)
                 | _ \<Rightarrow> False)
       (insts F)"

text \<open>
  An argument has a single shadow when the uses of it that the recognizer accepts all
  name the same allocation, and that allocation is not chained. A function has single
  shadows when each of its in-out parameters has.
\<close>

definition singleShadow :: "SILFunction \<Rightarrow> nat \<Rightarrow> bool" where
  "singleShadow F arg =
     list_all (\<lambda>a. list_all (\<lambda>b. b = a) (shadowsOf F arg) \<and> \<not> chained F a) (shadowsOf F arg)"

fun singleShadowsFrom :: "bool list \<Rightarrow> nat \<Rightarrow> SILFunction \<Rightarrow> bool" where
  "singleShadowsFrom [] arg F = True"
| "singleShadowsFrom (isIndirectInOut # params) arg F =
     ((\<not> isIndirectInOut \<or> singleShadow F arg) \<and> singleShadowsFrom params (Suc arg) F)"

definition singleShadows :: "SILFunction \<Rightarrow> bool" where
  "singleShadows F = singleShadowsFrom (interfaceParameters F) 0 F"

section \<open>Example functions\<close>

text \<open>
  Locations of autogenerated code and of code the programmer wrote, and the counters
  before a run.
\<close>

definition autoLoc :: SILLocation where
  "autoLoc = \<lparr>locKind = RegularKind, autoGenerated = True\<rparr>"

definition userLoc :: SILLocation where
  "userLoc = \<lparr>locKind = RegularKind, autoGenerated = False\<rparr>"

definition noStatistics :: Statistics where
  "noStatistics = \<lparr> NumShadowsRemoved = 0, NumShadowsKept = 0 \<rparr>"

text \<open>
  Scenario D: the shadow of the argument with its copy-in, its copy-out, its
  deallocation, and one more instruction that reads the shadow; \<open>shadowPromoted\<close> is
  the function after the run.
\<close>

definition shadowFunction :: SILFunction where
  "shadowFunction =
     \<lparr> interfaceParameters = [True],
       entryBBArgs = Some [\<lparr>argIsAddress = True, argUses = [(2, 1), (1, 0)]\<rparr>],
       insts =
         [ (0, \<lparr>instKind = AllocStackInst, instLoc = autoLoc,
                 instUses = [(3, 0), (2, 0), (4, 0), (1, 1)]\<rparr>),
           (1, \<lparr>instKind = CopyAddrInst (SILArgument 0, 0) (SILInstruction 0, 1),
                 instLoc = autoLoc, instUses = []\<rparr>),
           (4, \<lparr>instKind = OtherInst [(SILInstruction 0, 1)], instLoc = userLoc,
                 instUses = []\<rparr>),
           (2, \<lparr>instKind = CopyAddrInst (SILInstruction 0, 1) (SILArgument 0, 0),
                 instLoc = autoLoc, instUses = []\<rparr>),
           (3, \<lparr>instKind = DeallocStackInst (SILInstruction 0, 0), instLoc = autoLoc,
                 instUses = []\<rparr>) ] \<rparr>"

definition shadowPromoted :: SILFunction where
  "shadowPromoted =
     \<lparr> interfaceParameters = [True],
       entryBBArgs = Some [\<lparr>argIsAddress = True, argUses = [(4, 0)]\<rparr>],
       insts = [(4, \<lparr>instKind = OtherInst [(SILArgument 0, 0)], instLoc = userLoc,
                     instUses = []\<rparr>)] \<rparr>"

text \<open>
  Scenario B: a copy the programmer wrote, \<^verbatim>\<open>var b = p\<close>.
\<close>

definition userCopyFunction :: SILFunction where
  "userCopyFunction =
     \<lparr> interfaceParameters = [True],
       entryBBArgs = Some [\<lparr>argIsAddress = True, argUses = [(1, 0)]\<rparr>],
       insts =
         [ (0, \<lparr>instKind = AllocStackInst, instLoc = userLoc, instUses = [(2, 0), (1, 1)]\<rparr>),
           (1, \<lparr>instKind = CopyAddrInst (SILArgument 0, 0) (SILInstruction 0, 1),
                 instLoc = userLoc, instUses = []\<rparr>),
           (2, \<lparr>instKind = DeallocStackInst (SILInstruction 0, 0), instLoc = userLoc,
                 instUses = []\<rparr>) ] \<rparr>"

text \<open>
  Scenario C: the copy-in goes through a mark-uninitialized wrapper;
  \<open>markedShadowPromoted\<close> is the function after the run.
\<close>

definition markedShadowFunction :: SILFunction where
  "markedShadowFunction =
     \<lparr> interfaceParameters = [True],
       entryBBArgs = Some [\<lparr>argIsAddress = True, argUses = [(3, 1), (2, 0)]\<rparr>],
       insts =
         [ (0, \<lparr>instKind = AllocStackInst, instLoc = autoLoc, instUses = [(4, 0), (3, 0), (1, 0)]\<rparr>),
           (1, \<lparr>instKind = MarkUninitializedInst (SILInstruction 0, 1), instLoc = autoLoc,
                 instUses = [(2, 1)]\<rparr>),
           (2, \<lparr>instKind = CopyAddrInst (SILArgument 0, 0) (SILInstruction 1, 0),
                 instLoc = autoLoc, instUses = []\<rparr>),
           (3, \<lparr>instKind = CopyAddrInst (SILInstruction 0, 1) (SILArgument 0, 0),
                 instLoc = autoLoc, instUses = []\<rparr>),
           (4, \<lparr>instKind = DeallocStackInst (SILInstruction 0, 0), instLoc = autoLoc,
                 instUses = []\<rparr>) ] \<rparr>"

definition markedShadowPromoted :: SILFunction where
  "markedShadowPromoted =
     \<lparr> interfaceParameters = [True],
       entryBBArgs = Some [\<lparr>argIsAddress = True, argUses = [(1, 0), (2, 0)]\<rparr>],
       insts =
         [ (1, \<lparr>instKind = MarkUninitializedInst (SILArgument 0, 0), instLoc = autoLoc,
                 instUses = [(2, 1)]\<rparr>),
           (2, \<lparr>instKind = CopyAddrInst (SILArgument 0, 0) (SILInstruction 1, 0),
                 instLoc = autoLoc, instUses = []\<rparr>) ] \<rparr>"

text \<open>
  A shadow whose copy-out was written by the programmer; \<open>promotedResult\<close> is the
  function after the run.
\<close>

definition userCopyOutFunction :: SILFunction where
  "userCopyOutFunction =
     \<lparr> interfaceParameters = [True],
       entryBBArgs = Some [\<lparr>argIsAddress = True, argUses = [(2, 1), (1, 0)]\<rparr>],
       insts =
         [ (0, \<lparr>instKind = AllocStackInst, instLoc = autoLoc,
                 instUses = [(3, 0), (2, 0), (1, 1)]\<rparr>),
           (1, \<lparr>instKind = CopyAddrInst (SILArgument 0, 0) (SILInstruction 0, 1),
                 instLoc = autoLoc, instUses = []\<rparr>),
           (2, \<lparr>instKind = CopyAddrInst (SILInstruction 0, 1) (SILArgument 0, 0),
                 instLoc = userLoc, instUses = []\<rparr>),
           (3, \<lparr>instKind = DeallocStackInst (SILInstruction 0, 0), instLoc = autoLoc,
                 instUses = []\<rparr>) ] \<rparr>"

definition promotedResult :: SILFunction where
  "promotedResult =
     \<lparr> interfaceParameters = [True],
       entryBBArgs = Some [\<lparr>argIsAddress = True, argUses = []\<rparr>],
       insts = [] \<rparr>"

text \<open>
  An argument with autogenerated copies to two stack allocations; \<open>oneShadowLeft\<close> is
  the function after one run.
\<close>

definition twoShadowsFunction :: SILFunction where
  "twoShadowsFunction =
     \<lparr> interfaceParameters = [True],
       entryBBArgs = Some [\<lparr>argIsAddress = True, argUses = [(3, 0), (1, 0)]\<rparr>],
       insts =
         [ (0, \<lparr>instKind = AllocStackInst, instLoc = autoLoc, instUses = [(1, 1)]\<rparr>),
           (1, \<lparr>instKind = CopyAddrInst (SILArgument 0, 0) (SILInstruction 0, 1),
                 instLoc = autoLoc, instUses = []\<rparr>),
           (2, \<lparr>instKind = AllocStackInst, instLoc = autoLoc, instUses = [(3, 1)]\<rparr>),
           (3, \<lparr>instKind = CopyAddrInst (SILArgument 0, 0) (SILInstruction 2, 1),
                 instLoc = autoLoc, instUses = []\<rparr>) ] \<rparr>"

definition oneShadowLeft :: SILFunction where
  "oneShadowLeft =
     \<lparr> interfaceParameters = [True],
       entryBBArgs = Some [\<lparr>argIsAddress = True, argUses = [(1, 0)]\<rparr>],
       insts =
         [ (0, \<lparr>instKind = AllocStackInst, instLoc = autoLoc, instUses = [(1, 1)]\<rparr>),
           (1, \<lparr>instKind = CopyAddrInst (SILArgument 0, 0) (SILInstruction 0, 1),
                 instLoc = autoLoc, instUses = []\<rparr>) ] \<rparr>"

text \<open>
  A declaration without a body, with one in-out parameter.
\<close>

definition declarationFunction :: SILFunction where
  "declarationFunction = \<lparr> interfaceParameters = [True], entryBBArgs = None, insts = [] \<rparr>"

text \<open>
  A user variable beside a shadow: the argument has a shadow with an autogenerated
  copy-in, and the programmer copies the shadow to a variable of their own;
  \<open>userVarPromoted\<close> is the function after the run.
\<close>

definition userVarFunction :: SILFunction where
  "userVarFunction =
     \<lparr> interfaceParameters = [True],
       entryBBArgs = Some [\<lparr>argIsAddress = True, argUses = [(1, 0)]\<rparr>],
       insts =
         [ (0, \<lparr>instKind = AllocStackInst, instLoc = autoLoc, instUses = [(3, 0), (1, 1)]\<rparr>),
           (1, \<lparr>instKind = CopyAddrInst (SILArgument 0, 0) (SILInstruction 0, 1),
                 instLoc = autoLoc, instUses = []\<rparr>),
           (2, \<lparr>instKind = AllocStackInst, instLoc = userLoc, instUses = [(3, 1)]\<rparr>),
           (3, \<lparr>instKind = CopyAddrInst (SILInstruction 0, 1) (SILInstruction 2, 1),
                 instLoc = userLoc, instUses = []\<rparr>) ] \<rparr>"

definition userVarPromoted :: SILFunction where
  "userVarPromoted =
     \<lparr> interfaceParameters = [True],
       entryBBArgs = Some [\<lparr>argIsAddress = True, argUses = [(3, 0)]\<rparr>],
       insts =
         [ (2, \<lparr>instKind = AllocStackInst, instLoc = userLoc, instUses = [(3, 1)]\<rparr>),
           (3, \<lparr>instKind = CopyAddrInst (SILArgument 0, 0) (SILInstruction 2, 1),
                 instLoc = userLoc, instUses = []\<rparr>) ] \<rparr>"

text \<open>
  Three parameters: the first is in-out and has a shadow, the second is not in-out, the
  third is in-out and is copied to a variable by the programmer;
  \<open>mixedPromoted\<close> is the function after the run.
\<close>

definition mixedFunction :: SILFunction where
  "mixedFunction =
     \<lparr> interfaceParameters = [True, False, True],
       entryBBArgs = Some [\<lparr>argIsAddress = True, argUses = [(1, 0)]\<rparr>,
                           \<lparr>argIsAddress = False, argUses = []\<rparr>,
                           \<lparr>argIsAddress = True, argUses = [(3, 0)]\<rparr>],
       insts =
         [ (0, \<lparr>instKind = AllocStackInst, instLoc = autoLoc, instUses = [(1, 1)]\<rparr>),
           (1, \<lparr>instKind = CopyAddrInst (SILArgument 0, 0) (SILInstruction 0, 1),
                 instLoc = autoLoc, instUses = []\<rparr>),
           (2, \<lparr>instKind = AllocStackInst, instLoc = userLoc, instUses = [(3, 1)]\<rparr>),
           (3, \<lparr>instKind = CopyAddrInst (SILArgument 2, 0) (SILInstruction 2, 1),
                 instLoc = userLoc, instUses = []\<rparr>) ] \<rparr>"

definition mixedPromoted :: SILFunction where
  "mixedPromoted =
     \<lparr> interfaceParameters = [True, False, True],
       entryBBArgs = Some [\<lparr>argIsAddress = True, argUses = []\<rparr>,
                           \<lparr>argIsAddress = False, argUses = []\<rparr>,
                           \<lparr>argIsAddress = True, argUses = [(3, 0)]\<rparr>],
       insts =
         [ (2, \<lparr>instKind = AllocStackInst, instLoc = userLoc, instUses = [(3, 1)]\<rparr>),
           (3, \<lparr>instKind = CopyAddrInst (SILArgument 2, 0) (SILInstruction 2, 1),
                 instLoc = userLoc, instUses = []\<rparr>) ] \<rparr>"

text \<open>
  A shadow that is copied on to a second allocation by an autogenerated copy;
  \<open>chainPromoted\<close> is the function after one run.
\<close>

definition chainFunction :: SILFunction where
  "chainFunction =
     \<lparr> interfaceParameters = [True],
       entryBBArgs = Some [\<lparr>argIsAddress = True, argUses = [(1, 0)]\<rparr>],
       insts =
         [ (0, \<lparr>instKind = AllocStackInst, instLoc = autoLoc, instUses = [(3, 0), (1, 1)]\<rparr>),
           (1, \<lparr>instKind = CopyAddrInst (SILArgument 0, 0) (SILInstruction 0, 1),
                 instLoc = autoLoc, instUses = []\<rparr>),
           (2, \<lparr>instKind = AllocStackInst, instLoc = autoLoc, instUses = [(3, 1)]\<rparr>),
           (3, \<lparr>instKind = CopyAddrInst (SILInstruction 0, 1) (SILInstruction 2, 1),
                 instLoc = autoLoc, instUses = []\<rparr>) ] \<rparr>"

definition chainPromoted :: SILFunction where
  "chainPromoted =
     \<lparr> interfaceParameters = [True],
       entryBBArgs = Some [\<lparr>argIsAddress = True, argUses = [(3, 0)]\<rparr>],
       insts =
         [ (2, \<lparr>instKind = AllocStackInst, instLoc = autoLoc, instUses = [(3, 1)]\<rparr>),
           (3, \<lparr>instKind = CopyAddrInst (SILArgument 0, 0) (SILInstruction 2, 1),
                 instLoc = autoLoc, instUses = []\<rparr>) ] \<rparr>"




section \<open>Well-formedness in logical form\<close>

lemma list_all_insts:
  "distinct (map fst xs) \<Longrightarrow>
   list_all (\<lambda>(i, x). P i x) xs \<longleftrightarrow> (\<forall>i x. map_of xs i = Some x \<longrightarrow> P i x)"
  by (auto simp: list_all_iff dest: map_of_SomeD)

lemma list_all_enumerate:
  "list_all (\<lambda>(n, a). P n a) (enumerate 0 as) \<longleftrightarrow> (\<forall>n < length as. P n (as ! n))"
proof
  assume L: "list_all (\<lambda>(n, a). P n a) (enumerate 0 as)"
  show "\<forall>n < length as. P n (as ! n)"
  proof (intro allI impI)
    fix n assume "n < length as"
    then have "(n, as ! n) \<in> set (enumerate 0 as)"
      by (simp add: in_set_enumerate_eq)
    with L show "P n (as ! n)" by (auto simp: list_all_iff)
  qed
next
  assume "\<forall>n < length as. P n (as ! n)"
  then show "list_all (\<lambda>(n, a). P n a) (enumerate 0 as)"
    by (auto simp: list_all_iff in_set_enumerate_eq)
qed

lemma wellFormed_iff:
  "wellFormed F \<longleftrightarrow>
     distinct (map fst (insts F))
     \<and> (\<forall>i x. getInst F i = Some x \<longrightarrow> instWellFormed F i x)
     \<and> (\<forall>n a. getArg F n = Some a \<longrightarrow> argWellFormed F n a)"
  by (cases "entryBBArgs F")
     (auto simp: wellFormed_def list_all_insts getInst_def list_all_enumerate getArg_def)

lemma wellFormed_distinct: "wellFormed F \<Longrightarrow> distinct (map fst (insts F))"
  by (simp add: wellFormed_iff)

lemma wellFormed_operand:
  assumes "wellFormed F" "operandGet F u = Some v"
  shows "\<exists>us. getUses F (getDef v) = Some us \<and> u \<in> set us"
proof -
  from assms(2) obtain x where x: "getInst F (getUser u) = Some x"
    and k: "getOperandNumber u < length (getAllOperands (instKind x))"
    by (auto simp: operandGet_def split: option.splits if_splits)
  with assms(1) have "operandLinked F (getUser u, getOperandNumber u)"
    by (auto simp: wellFormed_iff instWellFormed_def list_all_iff)
  then have "operandLinked F u" by (simp add: getUser_def getOperandNumber_def)
  with assms(2) show ?thesis
    by (auto simp: operandLinked_def split: option.splits)
qed

lemma wellFormed_use:
  assumes "wellFormed F" "getUses F w = Some us" "u \<in> set us"
  shows "\<exists>r. operandGet F u = Some (w, r)"
proof -
  from assms have "useNames F w u"
    by (cases w) (auto simp: wellFormed_iff instWellFormed_def argWellFormed_def list_all_iff getUses_def)
  then show ?thesis
    by (cases "operandGet F u") (auto simp: useNames_def getDef_def)
qed

lemma wellFormed_noResult:
  "wellFormed F \<Longrightarrow> getInst F i = Some x \<Longrightarrow> \<not> hasResult (instKind x) \<Longrightarrow> instUses x = []"
  by (auto simp: wellFormed_iff instWellFormed_def)

lemma wellFormedI:
  assumes "distinct (map fst (insts F))"
    and "\<And>u v. operandGet F u = Some v \<Longrightarrow> \<exists>us. getUses F (getDef v) = Some us \<and> u \<in> set us"
    and "\<And>w us u. getUses F w = Some us \<Longrightarrow> u \<in> set us \<Longrightarrow> \<exists>r. operandGet F u = Some (w, r)"
    and "\<And>i x. getInst F i = Some x \<Longrightarrow> \<not> hasResult (instKind x) \<Longrightarrow> instUses x = []"
  shows "wellFormed F"
  unfolding wellFormed_iff
proof (intro conjI allI impI)
  show "distinct (map fst (insts F))" by fact
next
  fix i x assume x: "getInst F i = Some x"
  have "operandLinked F (i, k)" if "k < length (getAllOperands (instKind x))" for k
  proof -
    from that x have "operandGet F (i, k) = Some (getAllOperands (instKind x) ! k)"
      by (simp add: operandGet_def getUser_def getOperandNumber_def)
    from assms(2)[OF this] this show ?thesis by (auto simp: operandLinked_def)
  qed
  moreover have "useNames F (SILInstruction i) u" if "u \<in> set (instUses x)" for u
    using assms(3)[of "SILInstruction i" "instUses x" u] that x
    by (auto simp: getUses_def useNames_def getDef_def)
  ultimately show "instWellFormed F i x"
    using assms(4)[OF x] by (auto simp: instWellFormed_def list_all_iff)
next
  fix n a assume a: "getArg F n = Some a"
  have "useNames F (SILArgument n) u" if "u \<in> set (argUses a)" for u
    using assms(3)[of "SILArgument n" "argUses a" u] that a
    by (auto simp: getUses_def useNames_def getDef_def)
  then show "argWellFormed F n a"
    by (auto simp: argWellFormed_def list_all_iff)
qed

section \<open>Lookups after a change\<close>

lemma getInst_mapUses:
  "getInst (mapUses g F) i =
     map_option (\<lambda>x. x\<lparr>instUses := g (SILInstruction i) (instUses x)\<rparr>) (getInst F i)"
  by (simp add: getInst_def mapUses_def map_ran_conv)

lemma getArg_mapUses:
  "getArg (mapUses g F) n =
     map_option (\<lambda>a. a\<lparr>argUses := g (SILArgument n) (argUses a)\<rparr>) (getArg F n)"
  by (auto simp: getArg_def mapUses_def nth_enumerate_eq split: option.splits)

lemma getUses_mapUses:
  "getUses (mapUses g F) w = map_option (g w) (getUses F w)"
  by (cases w) (simp_all add: getUses_def getInst_mapUses getArg_mapUses option.map_comp comp_def)

lemma operandGet_mapUses:
  "operandGet (mapUses g F) u = operandGet F u"
  by (simp add: operandGet_def getInst_mapUses split: option.splits)

lemma insts_mapUses_fst: "map fst (insts (mapUses g F)) = map fst (insts F)"
  by (simp add: mapUses_def)

lemma getAllOperands_setOperand:
  "getAllOperands (setOperand k n w) = (getAllOperands k)[n := w]"
  by (cases k) (auto simp: list_update_code split: nat.splits)

lemma hasResult_setOperand: "hasResult (setOperand k n w) = hasResult k"
  by (cases k) auto

lemma getInst_map_entry:
  "getInst (F\<lparr>insts := AList.map_entry j h (insts F)\<rparr>) k =
     map_option (\<lambda>x. if k = j then h x else x) (getInst F k)"
  by (cases "map_of (insts F) k") (auto simp: getInst_def map_of_map_entry split: option.splits)

lemma getArg_insts_update:
  "getArg (F\<lparr>insts := xs\<rparr>) n = getArg F n"
  by (simp add: getArg_def)

lemma getInst_operandSet:
  "getInst (operandSet F u v) i =
     map_option
       (\<lambda>x. x\<lparr> instKind := (if i = getUser u then setOperand (instKind x) (getOperandNumber u) v
                             else instKind x),
                instUses := (if SILInstruction i = getDef v then u # removeAll u (instUses x)
                             else removeAll u (instUses x)) \<rparr>)
       (getInst F i)"
  by (cases "getInst F i")
     (simp_all add: operandSet_def Let_def getInst_mapUses getInst_map_entry)

lemma getArg_operandSet:
  "getArg (operandSet F u v) n =
     map_option
       (\<lambda>a. a\<lparr> argUses := (if SILArgument n = getDef v then u # removeAll u (argUses a)
                            else removeAll u (argUses a)) \<rparr>)
       (getArg F n)"
  by (cases "getArg F n")
     (simp_all add: operandSet_def Let_def getArg_mapUses getArg_insts_update)

lemma getUses_operandSet:
  "getUses (operandSet F u v) w =
     map_option (\<lambda>us. if w = getDef v then u # removeAll u us else removeAll u us) (getUses F w)"
  by (cases w) (auto simp: getUses_def getInst_operandSet getArg_operandSet option.map_comp comp_def
      intro!: option.map_cong)

lemma operandGet_operandSet:
  "operandGet (operandSet F u v) u' =
     (if u' = u then map_option (\<lambda>_. v) (operandGet F u) else operandGet F u')"
proof (cases "getInst F (getUser u')")
  case None
  then show ?thesis by (auto simp: operandGet_def getInst_operandSet)
next
  case (Some x)
  show ?thesis
  proof (cases "u' = u")
    case True
    with Some show ?thesis
      by (simp add: operandGet_def getInst_operandSet getAllOperands_setOperand)
  next
    case False
    then have "getUser u' = getUser u \<longrightarrow> getOperandNumber u \<noteq> getOperandNumber u'"
      by (cases u; cases u') (auto simp: getUser_def getOperandNumber_def)
    with Some False show ?thesis
      by (auto simp: operandGet_def getInst_operandSet getAllOperands_setOperand)
  qed
qed

lemma insts_operandSet_fst: "map fst (insts (operandSet F u v)) = map fst (insts F)"
proof -
  have "map fst (AList.map_entry k h xs) = map fst xs" for k h and xs :: "(nat \<times> Inst) list"
    by (induction xs) auto
  then show ?thesis
    by (simp add: operandSet_def Let_def insts_mapUses_fst)
qed

lemma eraseFromParent_eq:
  "eraseFromParent F i = Inr F' \<Longrightarrow>
   F' = mapUses (\<lambda>w. filter (\<lambda>u. getUser u \<noteq> i)) (F\<lparr>insts := AList.delete i (insts F)\<rparr>)"
  by (auto simp: eraseFromParent_def split: option.splits if_splits)

lemma eraseFromParent_Inr:
  "eraseFromParent F i = Inr F' \<Longrightarrow> \<exists>x. getInst F i = Some x \<and> instUses x = []"
  by (auto simp: eraseFromParent_def split: option.splits if_splits)

lemma eraseFromParent_InrI:
  "getInst F i = Some x \<Longrightarrow> instUses x = [] \<Longrightarrow> \<exists>F'. eraseFromParent F i = Inr F'"
  by (simp add: eraseFromParent_def)

lemma getInst_delete:
  "getInst (F\<lparr>insts := AList.delete i (insts F)\<rparr>) j = (if j = i then None else getInst F j)"
  by (simp add: getInst_def delete_conv')

lemma getInst_eraseFromParent:
  "eraseFromParent F i = Inr F' \<Longrightarrow>
   getInst F' j =
     (if j = i then None
      else map_option (\<lambda>x. x\<lparr>instUses := filter (\<lambda>u. getUser u \<noteq> i) (instUses x)\<rparr>) (getInst F j))"
  by (drule eraseFromParent_eq) (simp add: getInst_mapUses getInst_delete)

lemma getArg_eraseFromParent:
  "eraseFromParent F i = Inr F' \<Longrightarrow>
   getArg F' n = map_option (\<lambda>a. a\<lparr>argUses := filter (\<lambda>u. getUser u \<noteq> i) (argUses a)\<rparr>) (getArg F n)"
  by (drule eraseFromParent_eq) (simp add: getArg_mapUses getArg_insts_update)

lemma getUses_eraseFromParent:
  "eraseFromParent F i = Inr F' \<Longrightarrow>
   getUses F' w =
     (if w = SILInstruction i then None
      else map_option (filter (\<lambda>u. getUser u \<noteq> i)) (getUses F w))"
  by (cases w) (auto simp: getUses_def getInst_eraseFromParent getArg_eraseFromParent
      option.map_comp comp_def)

lemma operandGet_eraseFromParent:
  "eraseFromParent F i = Inr F' \<Longrightarrow>
   operandGet F' u = (if getUser u = i then None else operandGet F u)"
  by (auto simp: operandGet_def getInst_eraseFromParent split: option.splits)

lemma insts_eraseFromParent_distinct:
  "eraseFromParent F i = Inr F' \<Longrightarrow> distinct (map fst (insts F)) \<Longrightarrow> distinct (map fst (insts F'))"
  by (drule eraseFromParent_eq) (simp add: insts_mapUses_fst distinct_delete)

section \<open>Well-formedness is kept\<close>

lemma wellFormed_eraseFromParent:
  assumes wf: "wellFormed F" and er: "eraseFromParent F i = Inr F'"
  shows "wellFormed F'"
proof (rule wellFormedI)
  show "distinct (map fst (insts F'))"
    using insts_eraseFromParent_distinct[OF er] wf by (simp add: wellFormed_distinct)
next
  fix u v assume "operandGet F' u = Some v"
  then have u: "getUser u \<noteq> i" "operandGet F u = Some v"
    by (auto simp: operandGet_eraseFromParent[OF er] split: if_splits)
  from wellFormed_operand[OF wf u(2)] obtain us where us: "getUses F (getDef v) = Some us" "u \<in> set us"
    by blast
  from eraseFromParent_Inr[OF er] obtain x where x: "getInst F i = Some x" "instUses x = []"
    by blast
  with us have "getDef v \<noteq> SILInstruction i" by (auto simp: getUses_def)
  with us u show "\<exists>us. getUses F' (getDef v) = Some us \<and> u \<in> set us"
    by (simp add: getUses_eraseFromParent[OF er])
next
  fix w us u assume "getUses F' w = Some us" "u \<in> set us"
  then obtain us0 where "getUses F w = Some us0" "u \<in> set us0" "getUser u \<noteq> i"
    by (auto simp: getUses_eraseFromParent[OF er] split: if_splits)
  with wellFormed_use[OF wf this(1,2)] show "\<exists>r. operandGet F' u = Some (w, r)"
    by (simp add: operandGet_eraseFromParent[OF er])
next
  fix j x assume "getInst F' j = Some x" "\<not> hasResult (instKind x)"
  then show "instUses x = []"
    using wellFormed_noResult[OF wf]
    by (auto simp: getInst_eraseFromParent[OF er] split: if_splits)
qed

lemma wellFormed_operandSet:
  assumes wf: "wellFormed F" and u: "operandGet F u = Some v0"
    and arg: "getArg F p = Some a"
  shows "wellFormed (operandSet F u (SILArgument p, r))"
proof (rule wellFormedI)
  show "distinct (map fst (insts (operandSet F u (SILArgument p, r))))"
    using wf by (simp add: insts_operandSet_fst wellFormed_distinct)
next
  fix u' v assume g: "operandGet (operandSet F u (SILArgument p, r)) u' = Some v"
  show "\<exists>us. getUses (operandSet F u (SILArgument p, r)) (getDef v) = Some us \<and> u' \<in> set us"
  proof (cases "u' = u")
    case True
    with g u have "v = (SILArgument p, r)" by (simp add: operandGet_operandSet)
    with True arg show ?thesis
      by (simp add: getUses_operandSet getDef_def) (simp add: getUses_def)
  next
    case False
    with g have "operandGet F u' = Some v" by (simp add: operandGet_operandSet)
    from wellFormed_operand[OF wf this] obtain us where "getUses F (getDef v) = Some us" "u' \<in> set us"
      by blast
    with False show ?thesis
      by (cases "getDef v = getDef (SILArgument p, r)") (simp_all add: getUses_operandSet)
  qed
next
  fix w us u' assume "getUses (operandSet F u (SILArgument p, r)) w = Some us" "u' \<in> set us"
  then obtain us0 where us0: "getUses F w = Some us0"
    and mem: "(u' = u \<and> w = SILArgument p) \<or> (u' \<noteq> u \<and> u' \<in> set us0)"
    by (auto simp: getUses_operandSet getDef_def split: if_splits)
  from mem show "\<exists>r'. operandGet (operandSet F u (SILArgument p, r)) u' = Some (w, r')"
  proof
    assume "u' = u \<and> w = SILArgument p"
    with u show ?thesis by (simp add: operandGet_operandSet)
  next
    assume "u' \<noteq> u \<and> u' \<in> set us0"
    with wellFormed_use[OF wf us0] show ?thesis by (simp add: operandGet_operandSet)
  qed
next
  fix j x assume "getInst (operandSet F u (SILArgument p, r)) j = Some x" "\<not> hasResult (instKind x)"
  then show "instUses x = []"
    using wellFormed_noResult[OF wf]
    by (auto simp: getInst_operandSet getDef_def hasResult_setOperand split: if_splits)
qed

lemma redirected_refl: "redirected a p v v"
  by (simp add: redirected_def)

lemma kindRedirected_refl: "kindRedirected a p k k"
  by (cases k) (auto simp: redirected_refl list_all2_refl)

lemma kindRedirected_operands:
  "kindRedirected a p k k' \<Longrightarrow> list_all2 (redirected a p) (getAllOperands k) (getAllOperands k')"
  by (cases k; cases k') auto

lemma kindRedirected_result0:
  assumes "kindRedirected a p k k'" "n < length (getAllOperands k')"
    "getAllOperands k' ! n = (SILInstruction a, 0)"
  shows "(SILInstruction a, 0) \<in> set (getAllOperands k)"
proof -
  from kindRedirected_operands[OF assms(1)] assms(2)
  have len: "n < length (getAllOperands k)"
    and "redirected a p (getAllOperands k ! n) (getAllOperands k' ! n)"
    by (auto simp: list_all2_conv_all_nth)
  with assms(3) have "getAllOperands k ! n = (SILInstruction a, 0)"
    by (auto simp: redirected_def)
  with len show ?thesis by (metis nth_mem)
qed

lemma kindRedirected_copy:
  assumes "kindRedirected a p k (CopyAddrInst s' d')"
    "s' = (SILArgument p, 0) \<or> d' = (SILArgument p, 0)"
    "getDef s' = SILInstruction a \<or> getDef d' = SILInstruction a"
  shows "copyOfShadow a p k"
  using assms by (cases k) (auto simp: redirected_def getDef_def)

lemma kindRedirected_setOperand:
  assumes "kindRedirected a p k k'" "n < length (getAllOperands k')"
    "getAllOperands k' ! n = (SILInstruction a, r)" "r \<noteq> 0"
    "\<And>s d. k' = CopyAddrInst s d \<Longrightarrow> s \<noteq> (SILArgument p, 0) \<and> d \<noteq> (SILArgument p, 0)"
  shows "kindRedirected a p k (setOperand k' n (SILArgument p, 0))"
proof (cases k')
  case AllocStackInst
  with assms show ?thesis by simp
next
  case (DeallocStackInst v')
  with assms show ?thesis
    by (cases k) (auto simp: redirected_def getDef_def getResultNumber_def)
next
  case (CopyAddrInst s' d')
  with assms(5) have ne: "s' \<noteq> (SILArgument p, 0)" "d' \<noteq> (SILArgument p, 0)" by auto
  from assms(2) CopyAddrInst have "n = 0 \<or> n = 1" by auto
  with assms(1,3,4) CopyAddrInst ne show ?thesis
    by (cases k) (auto simp: redirected_def getDef_def getResultNumber_def)
next
  case (MarkUninitializedInst v')
  with assms show ?thesis
    by (cases k) (auto simp: redirected_def getDef_def getResultNumber_def)
next
  case (OtherInst vs')
  with assms(1) obtain vs where k: "k = OtherInst vs" and l: "list_all2 (redirected a p) vs vs'"
    by (cases k) auto
  from l assms(2,3,4) OtherInst have "redirected a p (vs ! n) (SILArgument p, 0)"
    by (auto simp: list_all2_conv_all_nth redirected_def getDef_def getResultNumber_def
        dest!: spec[of _ n])
  with l assms(2) OtherInst k show ?thesis
    by (auto simp: list_all2_conv_all_nth nth_list_update)
qed

lemma kindRedirected_final:
  assumes "kindRedirected a p k k'"
    "\<forall>v \<in> set (getAllOperands k'). getDef v \<noteq> SILInstruction a"
  shows "k' = mapOperands (redirectValue a p) k \<and> \<not> erasedByPromotion a p k"
proof -
  have red: "v' = redirectValue a p v \<and> v \<noteq> (SILInstruction a, 0)"
    if "redirected a p v v'" "getDef v' \<noteq> SILInstruction a" for v v'
    using that by (auto simp: redirected_def redirectValue_def getDef_def getResultNumber_def)
  show ?thesis
  proof (cases k')
    case AllocStackInst
    with assms show ?thesis by (cases k) (auto simp: erasedByPromotion_def)
  next
    case (DeallocStackInst v')
    with assms show ?thesis by (cases k) (auto simp: erasedByPromotion_def dest: red)
  next
    case (CopyAddrInst s' d')
    with assms obtain s d where k: "k = CopyAddrInst s d" by (cases k) auto
    from assms CopyAddrInst k have rs: "redirected a p s s'" "getDef s' \<noteq> SILInstruction a"
      and rd: "redirected a p d d'" "getDef d' \<noteq> SILInstruction a"
      and c: "\<not> (s' = (SILArgument p, 0) \<and> d' \<noteq> d)" "\<not> (d' = (SILArgument p, 0) \<and> s' \<noteq> s)"
      by auto
    from red[OF rs] red[OF rd] c CopyAddrInst k show ?thesis
      by (auto simp: erasedByPromotion_def redirectValue_def getDef_def split: if_splits)
  next
    case (MarkUninitializedInst v')
    with assms show ?thesis by (cases k) (auto simp: erasedByPromotion_def dest: red)
  next
    case (OtherInst vs')
    with assms(1) obtain vs where k: "k = OtherInst vs" and l: "list_all2 (redirected a p) vs vs'"
      by (cases k) auto
    from l assms(2) OtherInst have "\<forall>n < length vs. vs' ! n = redirectValue a p (vs ! n) \<and> vs ! n \<noteq> (SILInstruction a, 0)"
      by (auto simp: list_all2_conv_all_nth dest!: red)
    with l have "vs' = map (redirectValue a p) vs" "(SILInstruction a, 0) \<notin> set vs"
      by (auto simp: list_all2_conv_all_nth list_eq_iff_nth_eq in_set_conv_nth)
    with k OtherInst show ?thesis by (simp add: erasedByPromotion_def)
  qed
qed

section \<open>The loop of the promoter\<close>

lemma promoteShadowStep_Continue:
  assumes "promoteShadowStep G a p = Continue G'"
  obtains (lifecycle) A Use rest d where
      "getInst G a = Some A" "instUses A = Use # rest"
      "operandGet G Use = Some (d, 0)" "eraseFromParent G (getUser Use) = Inr G'"
  | (copy) A Use rest v y s d where
      "getInst G a = Some A" "instUses A = Use # rest"
      "operandGet G Use = Some v" "getResultNumber v \<noteq> 0"
      "getInst G (getUser Use) = Some y" "instKind y = CopyAddrInst s d"
      "s = (SILArgument p, 0) \<or> d = (SILArgument p, 0)"
      "eraseFromParent G (getUser Use) = Inr G'"
  | (redirect) A Use rest v y where
      "getInst G a = Some A" "instUses A = Use # rest"
      "operandGet G Use = Some v" "getResultNumber v \<noteq> 0"
      "getInst G (getUser Use) = Some y"
      "\<And>s d. instKind y = CopyAddrInst s d \<Longrightarrow> s \<noteq> (SILArgument p, 0) \<and> d \<noteq> (SILArgument p, 0)"
      "G' = operandSet G Use (SILArgument p, 0)"
proof -
  from assms obtain A Use rest v where A: "getInst G a = Some A" "instUses A = Use # rest"
    and v: "operandGet G Use = Some v"
    by (auto simp: promoteShadowStep_def split: option.splits list.splits)
  from v obtain y where y: "getInst G (getUser Use) = Some y"
    by (auto simp: operandGet_def split: option.splits)
  show thesis
  proof (cases "getResultNumber v = 0")
    case True
    with assms A v have "eraseFromParent G (getUser Use) = Inr G'"
      by (auto simp: promoteShadowStep_def eraseAndContinue_def split: sum.splits)
    moreover from True have "v = (fst v, 0)" by (cases v) (simp add: getResultNumber_def)
    ultimately show ?thesis using A v lifecycle[of A Use rest "fst v"] by simp
  next
    case False
    show ?thesis
    proof (cases "\<exists>s d. instKind y = CopyAddrInst s d \<and> (s = (SILArgument p, 0) \<or> d = (SILArgument p, 0))")
      case True
      then obtain s d where sd: "instKind y = CopyAddrInst s d"
        "s = (SILArgument p, 0) \<or> d = (SILArgument p, 0)" by blast
      with assms A v y False have "eraseFromParent G (getUser Use) = Inr G'"
        by (auto simp: promoteShadowStep_def eraseAndContinue_def split: sum.splits)
      with A v y False sd show ?thesis by (blast intro: copy)
    next
      case nc: False
      with assms A v y False have "G' = operandSet G Use (SILArgument p, 0)"
        by (auto simp: promoteShadowStep_def split: InstKind.splits if_splits)
      moreover from nc have "\<And>s d. instKind y = CopyAddrInst s d \<Longrightarrow>
          s \<noteq> (SILArgument p, 0) \<and> d \<noteq> (SILArgument p, 0)" by auto
      ultimately show ?thesis using redirect[OF A v False y] by blast
    qed
  qed
qed

lemma promoteShadowStep_Break:
  "promoteShadowStep G a p = Break \<longleftrightarrow> (\<exists>A. getInst G a = Some A \<and> instUses A = [])"
  by (auto simp: promoteShadowStep_def eraseAndContinue_def
      split: option.splits list.splits sum.splits InstKind.splits if_splits)

lemma wellFormed_allocUse:
  assumes "wellFormed G" "getInst G a = Some A" "instUses A = Use # rest"
  shows "\<exists>r. operandGet G Use = Some (SILInstruction a, r)"
  using wellFormed_use[OF assms(1), of "SILInstruction a" "instUses A" Use] assms(2,3)
  by (simp add: getUses_def)

lemma operandGet_nth:
  "operandGet G u = Some v \<Longrightarrow>
   \<exists>y. getInst G (getUser u) = Some y \<and> getOperandNumber u < length (getAllOperands (instKind y))
        \<and> getAllOperands (instKind y) ! getOperandNumber u = v"
  by (auto simp: operandGet_def split: option.splits if_splits)

lemma promotionInvariant_refl: "promotionInvariant a p F F"
  by (auto simp: promotionInvariant_def kindRedirected_refl)

lemma promotionInvariant_present:
  "promotionInvariant a p F G \<Longrightarrow> getInst G i = Some y \<Longrightarrow>
   \<exists>x. getInst F i = Some x \<and> instLoc y = instLoc x \<and> kindRedirected a p (instKind x) (instKind y)"
  by (simp add: promotionInvariant_def)

lemma promotionInvariant_absent:
  "promotionInvariant a p F G \<Longrightarrow> getInst F i = Some x \<Longrightarrow> getInst G i = None \<Longrightarrow>
   erasedByPromotion a p (instKind x)"
  by (simp add: promotionInvariant_def)

lemma promotionInvariant_erase:
  assumes inv: "promotionInvariant a p F G" and er: "eraseFromParent G i = Inr G'"
    and x: "\<And>x. getInst F i = Some x \<Longrightarrow> erasedByPromotion a p (instKind x)"
  shows "promotionInvariant a p F G'"
  unfolding promotionInvariant_def
proof (intro conjI allI impI)
  fix j y assume "getInst G' j = Some y"
  then obtain y0 where "getInst G j = Some y0" "instKind y = instKind y0" "instLoc y = instLoc y0"
    by (auto simp: getInst_eraseFromParent[OF er] split: if_splits)
  with promotionInvariant_present[OF inv this(1)]
  show "\<exists>x. getInst F j = Some x \<and> instLoc y = instLoc x \<and> kindRedirected a p (instKind x) (instKind y)"
    by auto
next
  fix j x' assume F: "getInst F j = Some x'" and G': "getInst G' j = None"
  show "erasedByPromotion a p (instKind x')"
  proof (cases "j = i")
    case True
    with F x show ?thesis by simp
  next
    case False
    with G' have "getInst G j = None" by (simp add: getInst_eraseFromParent[OF er])
    from promotionInvariant_absent[OF inv F this] show ?thesis .
  qed
qed

lemma promotionInvariant_step:
  assumes wf: "wellFormed G" and inv: "promotionInvariant a p F G"
    and arg: "getArg G p = Some pa"
    and step: "promoteShadowStep G a p = Continue G'"
  shows "wellFormed G' \<and> promotionInvariant a p F G' \<and> (\<exists>pa'. getArg G' p = Some pa')"
  using step
proof (cases rule: promoteShadowStep_Continue)
  case (lifecycle A Use rest d)
  from wellFormed_allocUse[OF wf lifecycle(1,2)] lifecycle(3)
  have d: "d = SILInstruction a" by auto
  from operandGet_nth[OF lifecycle(3)] obtain y where y: "getInst G (getUser Use) = Some y"
    "getOperandNumber Use < length (getAllOperands (instKind y))"
    "getAllOperands (instKind y) ! getOperandNumber Use = (SILInstruction a, 0)"
    using d by auto
  have er: "erasedByPromotion a p (instKind x)" if "getInst F (getUser Use) = Some x" for x
  proof -
    from promotionInvariant_present[OF inv y(1)] that
    have "kindRedirected a p (instKind x) (instKind y)" by auto
    from kindRedirected_result0[OF this y(2,3)] show ?thesis
      by (simp add: erasedByPromotion_def)
  qed
  have "promotionInvariant a p F G'"
    using promotionInvariant_erase[OF inv lifecycle(4)] er by blast
  with wellFormed_eraseFromParent[OF wf lifecycle(4)] arg show ?thesis
    by (simp add: getArg_eraseFromParent[OF lifecycle(4)])
next
  case (copy A Use rest v y s d)
  from wellFormed_allocUse[OF wf copy(1,2)] copy(3)
  have v: "getDef v = SILInstruction a" by (auto simp: getDef_def)
  from operandGet_nth[OF copy(3)] copy(5,6) v
  have "getDef s = SILInstruction a \<or> getDef d = SILInstruction a"
    by (auto simp: nth_Cons split: nat.splits)
  have er: "erasedByPromotion a p (instKind x)" if "getInst F (getUser Use) = Some x" for x
  proof -
    from promotionInvariant_present[OF inv copy(5)] copy(6) that
    have "kindRedirected a p (instKind x) (CopyAddrInst s d)" by auto
    from kindRedirected_copy[OF this copy(7)] \<open>getDef s = SILInstruction a \<or> getDef d = SILInstruction a\<close>
    show ?thesis by (simp add: erasedByPromotion_def)
  qed
  have "promotionInvariant a p F G'"
    using promotionInvariant_erase[OF inv copy(8)] er by blast
  with wellFormed_eraseFromParent[OF wf copy(8)] arg show ?thesis
    by (simp add: getArg_eraseFromParent[OF copy(8)])
next
  case (redirect A Use rest v y)
  from wellFormed_allocUse[OF wf redirect(1,2)] redirect(3)
  obtain r where v: "v = (SILInstruction a, r)" by auto
  with redirect(4) have r: "r \<noteq> 0" by (simp add: getResultNumber_def)
  from operandGet_nth[OF redirect(3)] redirect(5) v
  have n: "getOperandNumber Use < length (getAllOperands (instKind y))"
    "getAllOperands (instKind y) ! getOperandNumber Use = (SILInstruction a, r)"
    by auto
  have "promotionInvariant a p F G'"
    unfolding promotionInvariant_def
  proof (intro conjI allI impI)
    fix i y' assume "getInst G' i = Some y'"
    then obtain y0 where y0: "getInst G i = Some y0"
      and k: "instKind y' = (if i = getUser Use
               then setOperand (instKind y0) (getOperandNumber Use) (SILArgument p, 0)
               else instKind y0)"
      and l: "instLoc y' = instLoc y0"
      by (auto simp: redirect(7) getInst_operandSet)
    from promotionInvariant_present[OF inv y0] obtain x where x: "getInst F i = Some x"
      "instLoc y0 = instLoc x" "kindRedirected a p (instKind x) (instKind y0)"
      by blast
    show "\<exists>x. getInst F i = Some x \<and> instLoc y' = instLoc x
            \<and> kindRedirected a p (instKind x) (instKind y')"
    proof (cases "i = getUser Use")
      case True
      with y0 redirect(5) have "y0 = y" by simp
      with x(3) n r redirect(6)
      have "kindRedirected a p (instKind x) (setOperand (instKind y) (getOperandNumber Use) (SILArgument p, 0))"
        by (intro kindRedirected_setOperand) auto
      with True k l x \<open>y0 = y\<close> show ?thesis by simp
    next
      case False
      with k l x show ?thesis by simp
    qed
  next
    fix i x assume Fi: "getInst F i = Some x" and "getInst G' i = None"
    then have "getInst G i = None" by (simp add: redirect(7) getInst_operandSet)
    from promotionInvariant_absent[OF inv Fi this] show "erasedByPromotion a p (instKind x)" .
  qed
  with wellFormed_operandSet[OF wf redirect(3) arg, of 0] arg show ?thesis
    by (simp add: redirect(7) getArg_operandSet)
qed

lemma promoteShadowLoop_invariant:
  assumes "wellFormed G" "promotionInvariant a p F G" "getArg G p = Some pa"
    "promoteShadowLoop G a p = Inr G'"
  shows "wellFormed G' \<and> promotionInvariant a p F G' \<and> (\<exists>pa'. getArg G' p = Some pa')
         \<and> (\<exists>A. getInst G' a = Some A \<and> instUses A = [])"
  using assms
proof (induction G a p arbitrary: pa rule: promoteShadowLoop.induct)
  case (1 G a p)
  show ?case
  proof (cases "promoteShadowStep G a p")
    case Break
    with "1.prems" promoteShadowStep_Break[of G a p] show ?thesis
      by (auto simp: promoteShadowLoop.simps[of G a p])
  next
    case (Continue G1)
    from promotionInvariant_step[OF "1.prems"(1,2,3) Continue]
    obtain pa1 where G1: "wellFormed G1" "promotionInvariant a p F G1" "getArg G1 p = Some pa1"
      by blast
    from "1.prems"(4) Continue have "promoteShadowLoop G1 a p = Inr G'"
      by (simp add: promoteShadowLoop.simps[of G a p])
    from "1.IH"[OF Continue G1 this] show ?thesis .
  next
    case (Abort e)
    with "1.prems"(4) show ?thesis by (simp add: promoteShadowLoop.simps[of G a p])
  qed
qed

lemma promoteShadow_loop_result:
  assumes wf: "wellFormed F" and arg: "getArg F p = Some pa"
    and run: "promoteShadow F a p = Inr F'"
  obtains G A where "promoteShadowLoop F a p = Inr G" "eraseFromParent G a = Inr F'"
    "wellFormed G" "promotionInvariant a p F G" "getInst G a = Some A" "instUses A = []"
    "\<And>u v. operandGet G u = Some v \<Longrightarrow> getDef v \<noteq> SILInstruction a"
proof -
  from run obtain G where G: "promoteShadowLoop F a p = Inr G" "eraseFromParent G a = Inr F'"
    by (auto simp: promoteShadow_def split: sum.splits)
  from promoteShadowLoop_invariant[OF wf promotionInvariant_refl arg G(1)]
  obtain A where inv: "wellFormed G" "promotionInvariant a p F G"
    and A: "getInst G a = Some A" "instUses A = []"
    by blast
  have "getDef v \<noteq> SILInstruction a" if "operandGet G u = Some v" for u v
  proof
    assume "getDef v = SILInstruction a"
    with wellFormed_operand[OF inv(1) that] A show False by (simp add: getUses_def)
  qed
  with G inv A show thesis by (rule that)
qed

lemma operands_via_operandGet:
  assumes "getInst G i = Some y" "v \<in> set (getAllOperands (instKind y))"
  shows "\<exists>k. operandGet G (i, k) = Some v"
proof -
  from assms(2) obtain k where "k < length (getAllOperands (instKind y))"
    "getAllOperands (instKind y) ! k = v"
    by (auto simp: in_set_conv_nth)
  with assms(1) have "operandGet G (i, k) = Some v"
    by (simp add: operandGet_def getUser_def getOperandNumber_def)
  then show ?thesis ..
qed

lemma promoteShadow_result:
  assumes wf: "wellFormed F" and arg: "getArg F p = Some pa"
    and run: "promoteShadow F a p = Inr F'"
  shows "wellFormed F'"
    and "getInst F' a = None"
    and "\<And>i x. getInst F i = Some x \<Longrightarrow> i \<noteq> a \<Longrightarrow>
           (getInst F' i = None) = erasedByPromotion a p (instKind x)"
    and "\<And>i y. getInst F' i = Some y \<Longrightarrow>
           \<exists>x. getInst F i = Some x \<and> instLoc y = instLoc x
               \<and> instKind y = mapOperands (redirectValue a p) (instKind x)"
    and "\<And>u v. operandGet F' u = Some v \<Longrightarrow> getDef v \<noteq> SILInstruction a"
proof -
  obtain G A where G: "eraseFromParent G a = Inr F'" "wellFormed G" "promotionInvariant a p F G"
    "getInst G a = Some A" "instUses A = []"
    and clean: "\<And>u v. operandGet G u = Some v \<Longrightarrow> getDef v \<noteq> SILInstruction a"
  proof (rule promoteShadow_loop_result[OF wf arg run])
    fix G A
    assume "promoteShadowLoop F a p = Inr G" "eraseFromParent G a = Inr F'"
      "wellFormed G" "promotionInvariant a p F G" "getInst G a = Some A" "instUses A = []"
      "\<And>u v. operandGet G u = Some v \<Longrightarrow> getDef v \<noteq> SILInstruction a"
    then show thesis by (intro that)
  qed
  have final: "instKind y = mapOperands (redirectValue a p) (instKind x)
                 \<and> \<not> erasedByPromotion a p (instKind x) \<and> instLoc y = instLoc x"
    if "getInst G i = Some y" "getInst F i = Some x" for i x y
  proof -
    from promotionInvariant_present[OF G(3) that(1)] that(2)
    have k: "kindRedirected a p (instKind x) (instKind y)" and l: "instLoc y = instLoc x" by auto
    have "\<forall>v \<in> set (getAllOperands (instKind y)). getDef v \<noteq> SILInstruction a"
    proof
      fix v assume "v \<in> set (getAllOperands (instKind y))"
      from operands_via_operandGet[OF that(1) this] obtain k where "operandGet G (i, k) = Some v" ..
      then show "getDef v \<noteq> SILInstruction a" by (rule clean)
    qed
    from kindRedirected_final[OF k this] l show ?thesis by blast
  qed
  show "wellFormed F'" by (rule wellFormed_eraseFromParent[OF G(2,1)])
  show "getInst F' a = None" by (simp add: getInst_eraseFromParent[OF G(1)])
  show "(getInst F' i = None) = erasedByPromotion a p (instKind x)"
    if "getInst F i = Some x" "i \<noteq> a" for i x
  proof (cases "getInst G i")
    case None
    have "getInst F' i = None" using None that(2) by (simp add: getInst_eraseFromParent[OF G(1)])
    with promotionInvariant_absent[OF G(3) that(1) None] show ?thesis by simp
  next
    case (Some y)
    have "getInst F' i \<noteq> None" using Some that(2) by (simp add: getInst_eraseFromParent[OF G(1)])
    with final[OF Some that(1)] show ?thesis by blast
  qed
  show "\<exists>x. getInst F i = Some x \<and> instLoc y = instLoc x
          \<and> instKind y = mapOperands (redirectValue a p) (instKind x)"
    if "getInst F' i = Some y" for i y
  proof -
    from that obtain y0 where y0: "getInst G i = Some y0" "instKind y = instKind y0" "instLoc y = instLoc y0"
      by (auto simp: getInst_eraseFromParent[OF G(1)] split: if_splits)
    from promotionInvariant_present[OF G(3) y0(1)] obtain x where x: "getInst F i = Some x" by blast
    from final[OF y0(1) x] have "instKind y0 = mapOperands (redirectValue a p) (instKind x)"
      "instLoc y0 = instLoc x" by blast+
    with x y0(2,3) show ?thesis by (intro exI[of _ x]) simp
  qed
  show "getDef v \<noteq> SILInstruction a" if "operandGet F' u = Some v" for u v
    using that clean by (auto simp: operandGet_eraseFromParent[OF G(1)] split: if_splits)
qed

lemma promotable_step:
  assumes wf: "wellFormed G" and pr: "promotable G a" and step: "promoteShadowStep G a p = Continue G'"
  shows "promotable G' a"
proof -
  from pr obtain A where A: "getInst G a = Some A" "instKind A = AllocStackInst"
    "list_all (lifecycleOrAddressUse G) (instUses A)"
    by (auto simp: promotable_def split: option.splits)
  have erase: "promotable G' a" if er: "eraseFromParent G i = Inr G'" "i \<noteq> a" for i
  proof -
    have "lifecycleOrAddressUse G' u" if "lifecycleOrAddressUse G u" "getUser u \<noteq> i" for u
      using that
      by (auto simp: lifecycleOrAddressUse_def consumerUnused_def operandGet_eraseFromParent[OF er(1)]
          getInst_eraseFromParent[OF er(1)] split: option.splits)
    with A er(2) show ?thesis
      by (auto simp: promotable_def getInst_eraseFromParent[OF er(1)] list_all_iff)
  qed
  from step show ?thesis
  proof (cases rule: promoteShadowStep_Continue)
    case (lifecycle A' Use rest d)
    from eraseFromParent_Inr[OF lifecycle(4)] lifecycle(1,2) have "getUser Use \<noteq> a" by auto
    with erase lifecycle(4) show ?thesis by blast
  next
    case (copy A' Use rest v y s d)
    from eraseFromParent_Inr[OF copy(8)] copy(1,2) have "getUser Use \<noteq> a" by auto
    with erase copy(8) show ?thesis by blast
  next
    case (redirect A' Use rest v y)
    have "lifecycleOrAddressUse G' u" if "lifecycleOrAddressUse G u" "u \<noteq> Use" for u
      using that
      by (auto simp: lifecycleOrAddressUse_def consumerUnused_def redirect(7) operandGet_operandSet
          getInst_operandSet getDef_def split: option.splits)
    with A show ?thesis
      by (auto simp: promotable_def redirect(7) getInst_operandSet getDef_def
          list_all_iff split: InstKind.splits)
  qed
qed

lemma promoteShadowStep_no_Abort:
  assumes wf: "wellFormed G" and pr: "promotable G a"
  shows "promoteShadowStep G a p \<noteq> Abort e"
proof -
  from pr obtain A where A: "getInst G a = Some A"
    "list_all (lifecycleOrAddressUse G) (instUses A)"
    by (auto simp: promotable_def split: option.splits)
  show ?thesis
  proof (cases "instUses A")
    case Nil
    with A show ?thesis by (simp add: promoteShadowStep_def)
  next
    case (Cons Use rest)
    from wellFormed_allocUse[OF wf A(1) Cons] obtain r where v: "operandGet G Use = Some (SILInstruction a, r)"
      by blast
    from operandGet_nth[OF v] obtain y where y: "getInst G (getUser Use) = Some y" by blast
    have er: "\<exists>G'. eraseFromParent G (getUser Use) = Inr G'" if "instUses y = []"
      using eraseFromParent_InrI[OF y that] .
    show ?thesis
    proof (cases "r = 0")
      case True
      from A(2) Cons v True y have "instUses y = []"
        by (simp add: lifecycleOrAddressUse_def consumerUnused_def getResultNumber_def)
      from er[OF this] A Cons v True show ?thesis
        by (auto simp: promoteShadowStep_def eraseAndContinue_def getResultNumber_def)
    next
      case False
      have "instUses y = []" if "instKind y = CopyAddrInst s d" for s d
        using wellFormed_noResult[OF wf y] that by simp
      with er A Cons v False y show ?thesis
        by (auto simp: promoteShadowStep_def eraseAndContinue_def getResultNumber_def
            split: InstKind.splits)
    qed
  qed
qed

lemma promoteShadowLoop_returns:
  assumes "wellFormed G" "promotable G a" "getArg G p = Some pa"
  shows "\<exists>G'. promoteShadowLoop G a p = Inr G'"
  using assms
proof (induction G a p arbitrary: pa rule: promoteShadowLoop.induct)
  case (1 G a p)
  show ?case
  proof (cases "promoteShadowStep G a p")
    case Break
    then show ?thesis by (simp add: promoteShadowLoop.simps[of G a p])
  next
    case (Continue G1)
    from promotionInvariant_step[OF "1.prems"(1) promotionInvariant_refl "1.prems"(3) Continue]
    obtain pa1 where G1: "wellFormed G1" "getArg G1 p = Some pa1" by blast
    from "1.IH"[OF Continue G1(1) promotable_step[OF "1.prems"(1,2) Continue] G1(2)] Continue
    show ?thesis by (simp add: promoteShadowLoop.simps[of G a p])
  next
    case (Abort e)
    with promoteShadowStep_no_Abort[OF "1.prems"(1,2)] show ?thesis by blast
  qed
qed

lemma promoteShadow_returns:
  assumes "wellFormed F" "promotable F a" "getArg F p = Some pa"
  shows "\<exists>F'. promoteShadow F a p = Inr F'"
proof -
  from promoteShadowLoop_returns[OF assms] obtain G where G: "promoteShadowLoop F a p = Inr G" ..
  from promoteShadowLoop_invariant[OF assms(1) promotionInvariant_refl assms(3) G]
  obtain A where "getInst G a = Some A" "instUses A = []" by blast
  from eraseFromParent_InrI[OF this] G show ?thesis by (simp add: promoteShadow_def)
qed

lemma promoteShadowRounds_le: "promoteShadowRounds F a p \<le> useCount F a"
proof (induction F a p rule: promoteShadowRounds.induct)
  case (1 F a p)
  show ?case
  proof (cases "promoteShadowStep F a p")
    case (Continue F')
    with "1.IH"[OF Continue] promoteShadowStep_useCount[OF Continue] show ?thesis
      by (simp add: promoteShadowRounds.simps[of F a p])
  qed (simp_all add: promoteShadowRounds.simps[of F a p])
qed

section \<open>The examples are well formed\<close>

lemma shadowFunction_wellFormed: "wellFormed shadowFunction"
  by code_simp

lemma shadowFunction_promotable: "promotable shadowFunction 0"
  by code_simp

section \<open>The scan of the use list\<close>

lemma findShadow_None:
  "findShadow F us = None \<longleftrightarrow> (\<forall>u \<in> set us. isCopyToOrFromStack F u = None)"
  by (induction us) (auto split: option.splits)

lemma findShadow_first:
  "\<forall>u \<in> set before. isCopyToOrFromStack F u = None \<Longrightarrow> isCopyToOrFromStack F UI = Some ASI \<Longrightarrow>
   findShadow F (before @ UI # after) = Some ASI"
  by (induction before) auto

lemma findShadow_Some:
  "findShadow F us = Some ASI \<Longrightarrow> \<exists>u \<in> set us. isCopyToOrFromStack F u = Some ASI"
  by (induction us) (auto split: option.splits)

section \<open>Counting allocations\<close>

lemma runParameters_performParameters:
  "runParameters params arg F st = performParameters params arg F st"
  by (induction params arbitrary: arg F st) (auto split: sum.splits prod.splits)

lemma allocCount_mapUses: "allocCount (mapUses g F) = allocCount F"
proof -
  have "length (filter isAlloc
                  (AList.map_ran (\<lambda>i x. x\<lparr>instUses := g (SILInstruction i) (instUses x)\<rparr>) xs))
        = length (filter isAlloc xs)" for xs
    by (induction xs) (auto simp: isAlloc_def)
  then show ?thesis by (simp add: allocCount_def mapUses_def)
qed

lemma setOperand_alloc: "(setOperand k n w = AllocStackInst) = (k = AllocStackInst)"
  by (cases k) auto

lemma allocCount_operandSet: "allocCount (operandSet F u v) = allocCount F"
proof -
  have "length (filter isAlloc (AList.map_entry j (\<lambda>x. x\<lparr>instKind := setOperand (instKind x) n v\<rparr>) xs))
        = length (filter isAlloc xs)" for j n xs
    by (induction xs) (auto simp: isAlloc_def setOperand_alloc)
  then have "allocCount (G\<lparr>insts := AList.map_entry j (\<lambda>x. x\<lparr>instKind := setOperand (instKind x) n v\<rparr>) (insts G)\<rparr>)
        = allocCount G" for G j n
    by (simp add: allocCount_def)
  then show ?thesis by (simp add: operandSet_def Let_def allocCount_mapUses)
qed

lemma filter_delete_length:
  assumes "distinct (map fst xs)" "map_of xs i = Some x"
  shows "length (filter P (AList.delete i xs)) + (if P (i, x) then 1 else 0) = length (filter P xs)"
  using assms
proof (induction xs)
  case Nil
  then show ?case by simp
next
  case (Cons e xs)
  show ?case
  proof (cases "fst e = i")
    case True
    with Cons.prems have "e = (i, x)" by (cases e) auto
    moreover from Cons.prems True have "i \<notin> fst ` set xs" by auto
    then have "AList.delete i xs = xs" by (simp add: delete_id)
    ultimately show ?thesis by (simp add: AList.delete_eq)
  next
    case False
    with Cons show ?thesis by (cases e) (auto simp: AList.delete_eq)
  qed
qed

lemma allocCount_eraseFromParent:
  assumes "wellFormed G" "eraseFromParent G i = Inr G'" "getInst G i = Some x"
  shows "allocCount G' + (if instKind x = AllocStackInst then 1 else 0) = allocCount G"
proof -
  from filter_delete_length[OF wellFormed_distinct[OF assms(1)], of i x isAlloc] assms(3)
  have "length (filter isAlloc (AList.delete i (insts G))) + (if instKind x = AllocStackInst then 1 else 0)
        = allocCount G"
    by (simp add: getInst_def allocCount_def isAlloc_def)
  moreover have "allocCount G' = length (filter isAlloc (AList.delete i (insts G)))"
    by (simp add: eraseFromParent_eq[OF assms(2)] allocCount_mapUses) (simp add: allocCount_def)
  ultimately show ?thesis by simp
qed

lemma allocCount_step:
  assumes "wellFormed G" "promoteShadowStep G a p = Continue G'"
  shows "allocCount G' = allocCount G"
  using assms(2)
proof (cases rule: promoteShadowStep_Continue)
  case (lifecycle A Use rest d)
  from operandGet_nth[OF lifecycle(3)] obtain y where y: "getInst G (getUser Use) = Some y"
    "getOperandNumber Use < length (getAllOperands (instKind y))" by blast
  then have "instKind y \<noteq> AllocStackInst" by auto
  with allocCount_eraseFromParent[OF assms(1) lifecycle(4) y(1)] show ?thesis by simp
next
  case (copy A Use rest v y s d)
  with allocCount_eraseFromParent[OF assms(1) copy(8) copy(5)] show ?thesis by simp
next
  case (redirect A Use rest v y)
  then show ?thesis by (simp add: allocCount_operandSet)
qed

lemma allocCount_loop:
  assumes "wellFormed G" "getArg G p = Some pa" "promoteShadowLoop G a p = Inr G'"
  shows "allocCount G' = allocCount G"
  using assms
proof (induction G a p arbitrary: pa rule: promoteShadowLoop.induct)
  case (1 G a p)
  show ?case
  proof (cases "promoteShadowStep G a p")
    case Break
    with "1.prems" show ?thesis by (simp add: promoteShadowLoop.simps[of G a p])
  next
    case (Continue G1)
    from promotionInvariant_step[OF "1.prems"(1) promotionInvariant_refl "1.prems"(2) Continue]
    obtain pa1 where G1: "wellFormed G1" "getArg G1 p = Some pa1" by blast
    from "1.prems"(3) Continue have "promoteShadowLoop G1 a p = Inr G'"
      by (simp add: promoteShadowLoop.simps[of G a p])
    from "1.IH"[OF Continue G1 this] allocCount_step[OF "1.prems"(1) Continue] show ?thesis by simp
  next
    case (Abort e)
    with "1.prems"(3) show ?thesis by (simp add: promoteShadowLoop.simps[of G a p])
  qed
qed

lemma allocCount_promoteShadow:
  assumes wf: "wellFormed F" and arg: "getArg F p = Some pa" and al: "isAllocStack F a"
    and run: "promoteShadow F a p = Inr F'"
  shows "allocCount F' + 1 = allocCount F"
proof (rule promoteShadow_loop_result[OF wf arg run])
  fix G A
  assume G: "promoteShadowLoop F a p = Inr G" "eraseFromParent G a = Inr F'" "wellFormed G"
    "promotionInvariant a p F G" "getInst G a = Some A"
  from promotionInvariant_present[OF G(4,5)] al have "instKind A = AllocStackInst"
    by (auto simp: isAllocStack_def elim: kindRedirected.elims)
  with allocCount_eraseFromParent[OF G(3,2,5)] allocCount_loop[OF wf arg G(1)]
  show ?thesis by simp
qed

lemma isCopyToOrFromStack_Some:
  assumes "isCopyToOrFromStack F UI = Some a"
  shows "isAllocStack F a"
    and "\<exists>CAI Src Dest. getInst F (getUser UI) = Some CAI \<and> instKind CAI = CopyAddrInst Src Dest
           \<and> passesGate (instLoc CAI)"
proof -
  from assms obtain CAI Src Dest where c: "getInst F (getUser UI) = Some CAI"
    "instKind CAI = CopyAddrInst Src Dest" "passesGate (instLoc CAI)"
    by (auto simp: isCopyToOrFromStack_def passesGate_def split: option.splits InstKind.splits if_splits)
  then show "\<exists>CAI Src Dest. getInst F (getUser UI) = Some CAI \<and> instKind CAI = CopyAddrInst Src Dest
           \<and> passesGate (instLoc CAI)" by blast
  from assms c obtain v where "dyn_cast_AllocStackInst F v = Some a"
    by (auto simp: isCopyToOrFromStack_def Let_def passesGate_def split: if_splits)
  then show "isAllocStack F a"
    by (auto simp: dyn_cast_AllocStackInst_def isAllocStack_def
        split: ValueBase.splits option.splits InstKind.splits)
qed

lemma findShadow_isAllocStack: "findShadow F us = Some a \<Longrightarrow> isAllocStack F a"
proof -
  assume "findShadow F us = Some a"
  from findShadow_Some[OF this] obtain u where "isCopyToOrFromStack F u = Some a" by blast
  then show ?thesis by (rule isCopyToOrFromStack_Some(1))
qed

lemma processInOutValue_cases:
  assumes "processInOutValue F n = Inr (promoted, F')"
  obtains (kept) "\<not> promoted" "F' = F"
    | (removed) a A where "promoted" "getArg F n = Some A" "argIsAddress A"
        "findShadow F (argUses A) = Some a" "promoteShadow F a n = Inr F'"
  using assms
  by (auto simp: processInOutValue_def split: option.splits if_splits sum.splits)

lemma processInOutValue_wellFormed:
  assumes "wellFormed F" "processInOutValue F n = Inr (promoted, F')"
  shows "wellFormed F' \<and> allocCount F' + (if promoted then 1 else 0) = allocCount F"
  using assms(2)
proof (cases rule: processInOutValue_cases)
  case kept
  with assms(1) show ?thesis by simp
next
  case (removed a A)
  from promoteShadow_result(1)[OF assms(1) removed(2,5)]
    allocCount_promoteShadow[OF assms(1) removed(2) findShadow_isAllocStack[OF removed(4)] removed(5)]
    removed(1)
  show ?thesis by simp
qed

section \<open>What a run keeps and what it erases\<close>












section \<open>A run that finds no shadow\<close>

lemma argShape_mapUses: "argShape (mapUses g F) = argShape F"
  by (cases "entryBBArgs F")
     (auto simp: argShape_def mapUses_def list_eq_iff_nth_eq nth_enumerate_eq)

lemma interfaceParameters_mapUses: "interfaceParameters (mapUses g F) = interfaceParameters F"
  by (simp add: mapUses_def)

lemma argShape_insts_update: "argShape (F\<lparr>insts := xs\<rparr>) = argShape F"
  by (simp add: argShape_def)

lemma argShape_operandSet: "argShape (operandSet F u v) = argShape F"
  by (simp add: operandSet_def Let_def argShape_mapUses argShape_insts_update)

lemma interfaceParameters_operandSet:
  "interfaceParameters (operandSet F u v) = interfaceParameters F"
  by (simp add: operandSet_def Let_def interfaceParameters_mapUses)

lemma shape_eraseFromParent:
  "eraseFromParent F i = Inr F' \<Longrightarrow>
   argShape F' = argShape F \<and> interfaceParameters F' = interfaceParameters F"
  by (drule eraseFromParent_eq)
     (simp add: argShape_mapUses interfaceParameters_mapUses argShape_insts_update)

lemma shape_step:
  assumes "promoteShadowStep G a p = Continue G'"
  shows "argShape G' = argShape G \<and> interfaceParameters G' = interfaceParameters G"
  using assms
  by (cases rule: promoteShadowStep_Continue)
     (simp_all add: shape_eraseFromParent argShape_operandSet interfaceParameters_operandSet)

lemma shape_loop:
  "promoteShadowLoop G a p = Inr G' \<Longrightarrow>
   argShape G' = argShape G \<and> interfaceParameters G' = interfaceParameters G"
proof (induction G a p rule: promoteShadowLoop.induct)
  case (1 G a p)
  show ?case
  proof (cases "promoteShadowStep G a p")
    case Break
    with "1.prems" show ?thesis by (simp add: promoteShadowLoop.simps[of G a p])
  next
    case (Continue G1)
    with "1.prems" have "promoteShadowLoop G1 a p = Inr G'"
      by (simp add: promoteShadowLoop.simps[of G a p])
    from "1.IH"[OF Continue this] shape_step[OF Continue] show ?thesis by simp
  next
    case (Abort e)
    with "1.prems" show ?thesis by (simp add: promoteShadowLoop.simps[of G a p])
  qed
qed

lemma shape_promoteShadow:
  assumes "promoteShadow F a p = Inr F'"
  shows "argShape F' = argShape F \<and> interfaceParameters F' = interfaceParameters F"
proof -
  from assms obtain G where "promoteShadowLoop F a p = Inr G" "eraseFromParent G a = Inr F'"
    by (auto simp: promoteShadow_def split: sum.splits)
  from shape_loop[OF this(1)] shape_eraseFromParent[OF this(2)] show ?thesis by simp
qed

lemma processInOutValue_shape:
  assumes "processInOutValue F n = Inr (promoted, F')"
  shows "argShape F' = argShape F \<and> interfaceParameters F' = interfaceParameters F
         \<and> (case argShape F of None \<Rightarrow> False | Some as \<Rightarrow> n < length as \<and> as ! n)
         \<and> (\<not> promoted \<longrightarrow> (case getArg F n of None \<Rightarrow> True | Some A \<Rightarrow> findShadow F (argUses A) = None))"
proof -
  from assms obtain A where A: "getArg F n = Some A" "argIsAddress A"
    by (auto simp: processInOutValue_def split: option.splits if_splits)
  then have sh: "case argShape F of None \<Rightarrow> False | Some as \<Rightarrow> n < length as \<and> as ! n"
    by (auto simp: getArg_def argShape_def split: option.splits if_splits)
  from assms A have "\<not> promoted \<longrightarrow> findShadow F (argUses A) = None"
    by (auto simp: processInOutValue_def split: option.splits sum.splits)
  moreover from assms have "argShape F' = argShape F \<and> interfaceParameters F' = interfaceParameters F"
    by (cases rule: processInOutValue_cases) (simp_all add: shape_promoteShadow)
  ultimately show ?thesis using sh A by simp
qed

lemma argsAccepted_getBBArg:
  "(case argShape F of None \<Rightarrow> False | Some as \<Rightarrow> n < length as \<and> as ! n) \<Longrightarrow>
   getBBArg F n = Inr n \<and> (\<exists>A. getArg F n = Some A \<and> argIsAddress A)"
  by (auto simp: argShape_def getBBArg_def getArg_def split: option.splits)

lemma getBBArg_Inr: "getBBArg F n = Inr m \<Longrightarrow> m = n"
  by (auto simp: getBBArg_def split: option.splits if_splits)

lemma runParameters_Cons_True:
  assumes "runParameters (True # params) arg F st = Inr (F', st')"
  obtains promoted F1 where "processInOutValue F arg = Inr (promoted, F1)"
    "runParameters params (Suc arg) F1
       (if promoted then st\<lparr>NumShadowsRemoved := NumShadowsRemoved st + 1\<rparr>
        else st\<lparr>NumShadowsKept := NumShadowsKept st + 1\<rparr>) = Inr (F', st')"
proof -
  from assms obtain m where m: "getBBArg F arg = Inr m"
    by (auto split: sum.splits)
  from getBBArg_Inr[OF m] have "m = arg" .
  with assms m that show thesis
    by (auto split: sum.splits prod.splits if_splits)
qed

lemma runParameters_accepted:
  assumes "runParameters params arg F st = Inr (F', st')"
  shows "argsAccepted params arg (argShape F) \<and> argShape F' = argShape F
         \<and> interfaceParameters F' = interfaceParameters F"
  using assms
proof (induction params arbitrary: arg F st)
  case Nil
  then show ?case by simp
next
  case (Cons isIndirectInOut params)
  show ?case
  proof (cases isIndirectInOut)
    case False
    with Cons.prems have "runParameters params (Suc arg) F st = Inr (F', st')" by simp
    from Cons.IH[OF this] False show ?thesis by simp
  next
    case True
    with Cons.prems have "runParameters (True # params) arg F st = Inr (F', st')" by simp
    then show ?thesis
    proof (cases rule: runParameters_Cons_True)
      case (1 promoted F1)
      from processInOutValue_shape[OF 1(1)] Cons.IH[OF 1(2)] True show ?thesis by simp
    qed
  qed
qed

lemma runParameters_noShadow:
  assumes "argsAccepted params arg (argShape G)" "noShadowFrom params arg G"
  shows "runParameters params arg G st =
           Inr (G, st\<lparr>NumShadowsKept := NumShadowsKept st + of_nat (inOutCount params)\<rparr>)"
  using assms
proof (induction params arbitrary: arg st)
  case Nil
  then show ?case by (simp add: inOutCount_def)
next
  case (Cons isIndirectInOut params)
  show ?case
  proof (cases isIndirectInOut)
    case False
    with Cons show ?thesis by (simp add: inOutCount_def)
  next
    case True
    with Cons.prems(1) have "case argShape G of None \<Rightarrow> False | Some as \<Rightarrow> arg < length as \<and> as ! arg"
      by simp
    from argsAccepted_getBBArg[OF this] obtain A where A: "getBBArg G arg = Inr arg"
      "getArg G arg = Some A" "argIsAddress A" by blast
    with Cons.prems(2) True have "processInOutValue G arg = Inr (False, G)"
      by (simp add: processInOutValue_def)
    with A True Cons.IH[of "Suc arg"] Cons.prems show ?thesis
      by (simp add: inOutCount_def add.assoc)
  qed
qed

section \<open>What the promotions of a run erase and count\<close>

lemma promotions_Cons_True:
  assumes "processInOutValue F arg = Inr (promoted, F1)"
  shows "promotions (True # params) arg F =
           (case shadowFound F arg of
              Some ASI \<Rightarrow> if promoted then [(ASI, arg)] else []
            | None \<Rightarrow> [])
           @ promotions params (Suc arg) F1"
proof -
  from processInOutValue_shape[OF assms]
  have "case argShape F of None \<Rightarrow> False | Some as \<Rightarrow> arg < length as \<and> as ! arg" by simp
  from argsAccepted_getBBArg[OF this] assms show ?thesis by simp
qed

lemma promotions_step:
  assumes "processInOutValue F arg = Inr (promoted, F1)"
  obtains (kept) "\<not> promoted" "F1 = F" "promotions (True # params) arg F = promotions params (Suc arg) F"
    | (removed) a A where "promoted" "getArg F arg = Some A" "argIsAddress A"
        "findShadow F (argUses A) = Some a" "promoteShadow F a arg = Inr F1"
        "promotions (True # params) arg F = (a, arg) # promotions params (Suc arg) F1"
  using assms
proof (cases rule: processInOutValue_cases)
  case kept
  with promotions_Cons_True[OF assms, of params] that(1) show ?thesis
    by (auto split: option.splits)
next
  case (removed a A)
  with promotions_Cons_True[OF assms, of params] that(2)[OF removed] show ?thesis
    by (simp add: shadowFound_def)
qed


lemma runParameters_promotions:
  assumes "wellFormed F" "runParameters params arg F st = Inr (F', st')"
  shows "wellFormed F'
         \<and> allocCount F' + length (promotions params arg F) = allocCount F
         \<and> length (promotions params arg F) \<le> inOutCount params
         \<and> NumShadowsRemoved st' = NumShadowsRemoved st + of_nat (length (promotions params arg F))
         \<and> NumShadowsKept st' = NumShadowsKept st
              + of_nat (inOutCount params - length (promotions params arg F))"
  using assms
proof (induction params arbitrary: arg F st)
  case Nil
  then show ?case by (simp add: inOutCount_def)
next
  case (Cons isIndirectInOut params)
  show ?case
  proof (cases isIndirectInOut)
    case False
    with Cons.prems(2) have "runParameters params (Suc arg) F st = Inr (F', st')" by simp
    from Cons.IH[OF Cons.prems(1) this] False show ?thesis by (simp add: inOutCount_def)
  next
    case True
    with Cons.prems have "runParameters (True # params) arg F st = Inr (F', st')" by simp
    then show ?thesis
    proof (cases rule: runParameters_Cons_True)
      case (1 promoted F1)
      from processInOutValue_wellFormed[OF Cons.prems(1) 1(1)]
      have F1: "wellFormed F1" "allocCount F1 + (if promoted then 1 else 0) = allocCount F" by auto
      note IH = Cons.IH[OF F1(1) 1(2)]
      have k: "inOutCount (isIndirectInOut # params) = Suc (inOutCount params)"
        using True by (simp add: inOutCount_def)
      from 1(1) show ?thesis
      proof (cases rule: promotions_step[where params = params])
        case kept
        from IH have "length (promotions params (Suc arg) F) \<le> inOutCount params"
          using kept by simp
        then have "Suc (inOutCount params) - length (promotions params (Suc arg) F)
              = Suc (inOutCount params - length (promotions params (Suc arg) F))" by simp
        with IH kept k True F1 show ?thesis by (simp add: add.assoc add.commute)
      next
        case (removed a A)
        with IH k True F1 show ?thesis by (simp add: add.assoc add.commute)
      qed
    qed
  qed
qed

lemma mapOperands_alloc: "(mapOperands h k = AllocStackInst) = (k = AllocStackInst)"
  by (cases k) auto









lemma performParameters_promotions:
  assumes "wellFormed F" "performParameters (interfaceParameters F) 0 F st = Inr (F', st')"
    "entryBBArgs F \<noteq> None"
  shows "wellFormed F'"
    and "allocCount F' + promotedCount F = allocCount F"
    and "promotedCount F \<le> processedInOut F"
    and "NumShadowsRemoved st' = NumShadowsRemoved st + of_nat (promotedCount F)"
    and "NumShadowsKept st' = NumShadowsKept st + of_nat (processedInOut F - promotedCount F)"
proof -
  from assms(2) have "runParameters (interfaceParameters F) 0 F st = Inr (F', st')"
    by (simp add: runParameters_performParameters)
  moreover from assms(3) have c: "promotedCount F = length (promotions (interfaceParameters F) 0 F)"
    "processedInOut F = inOutCount (interfaceParameters F)"
    by (auto simp: promotedCount_def processedInOut_def promotedPairs_def)
  ultimately show "wellFormed F'"
    and "allocCount F' + promotedCount F = allocCount F"
    and "promotedCount F \<le> processedInOut F"
    and "NumShadowsRemoved st' = NumShadowsRemoved st + of_nat (promotedCount F)"
    and "NumShadowsKept st' = NumShadowsKept st + of_nat (processedInOut F - promotedCount F)"
    using runParameters_promotions[OF assms(1), of "interfaceParameters F" 0 st F' st']
    by (simp_all only: c)
qed

lemma performInOutDeshadowing_Cons:
  assumes "performInOutDeshadowing (Fn # M) st = Inr (M', st')"
  obtains (skipped) M1 where "entryBBArgs Fn = None" "M' = Fn # M1"
      "performInOutDeshadowing M st = Inr (M1, st')"
    | (processed) Fn' st1 M1 where "entryBBArgs Fn \<noteq> None" "M' = Fn' # M1"
      "performParameters (interfaceParameters Fn) 0 Fn st = Inr (Fn', st1)"
      "performInOutDeshadowing M st1 = Inr (M1, st')"
  using assms by (auto split: if_splits sum.splits prod.splits)

section \<open>The shadows a run leaves\<close>

lemma isCopyToOrFromStack_shadowTarget:
  "isCopyToOrFromStack F UI = Some b \<longleftrightarrow>
     (\<exists>CAI Src Dest. getInst F (getUser UI) = Some CAI \<and> instKind CAI = CopyAddrInst Src Dest
        \<and> passesGate (instLoc CAI)
        \<and> shadowTarget F (if getOperandNumber UI = 0 then Dest else Src) = Some b)"
proof (cases "getInst F (getUser UI)")
  case None
  then show ?thesis by (simp add: isCopyToOrFromStack_def)
next
  case (Some CAI)
  show ?thesis
    by (cases "instKind CAI")
       (auto simp add: Some isCopyToOrFromStack_def shadowTarget_def passesGate_def Let_def
          simp del: split_paired_Ex)
qed

lemma set_map_filter_iff: "b \<in> set (List.map_filter f xs) \<longleftrightarrow> (\<exists>x \<in> set xs. f x = Some b)"
  by (induction xs) (auto simp: map_filter_simps split: option.splits)

lemma shadowsOf_iff:
  "b \<in> set (shadowsOf F q) \<longleftrightarrow>
     (\<exists>A UI. getArg F q = Some A \<and> UI \<in> set (argUses A) \<and> isCopyToOrFromStack F UI = Some b)"
  by (cases "getArg F q") (simp_all add: shadowsOf_def set_map_filter_iff Bex_def del: split_paired_Ex)

lemma findShadow_shadowsOf:
  "getArg F q = Some A \<Longrightarrow> (findShadow F (argUses A) = None) = (shadowsOf F q = [])"
proof -
  assume A: "getArg F q = Some A"
  have "(findShadow F us = None) = (List.map_filter (isCopyToOrFromStack F) us = [])" for us
    by (induction us) (auto simp: map_filter_simps split: option.splits)
  with A show ?thesis by (simp add: shadowsOf_def)
qed

lemma findShadow_in_shadowsOf:
  assumes "getArg F q = Some A" "findShadow F (argUses A) = Some a"
  shows "a \<in> set (shadowsOf F q)"
proof -
  from findShadow_Some[OF assms(2)] obtain u where "u \<in> set (argUses A)"
    "isCopyToOrFromStack F u = Some a" by blast
  with assms(1) show ?thesis unfolding shadowsOf_iff by blast
qed

lemma singleShadow_iff:
  "singleShadow F q \<longleftrightarrow>
     (\<forall>a \<in> set (shadowsOf F q). (\<forall>b \<in> set (shadowsOf F q). b = a) \<and> \<not> chained F a)"
  by (simp add: singleShadow_def list_all_iff)

lemma chained_iff:
  "chained F a \<longleftrightarrow>
     (\<exists>i x Src Dest. (i, x) \<in> set (insts F) \<and> instKind x = CopyAddrInst Src Dest
        \<and> passesGate (instLoc x)
        \<and> (linksAllocation F a Src Dest \<or> linksAllocation F a Dest Src))"
proof
  assume "chained F a"
  then obtain i x where x: "(i, x) \<in> set (insts F)"
    "case instKind x of
       CopyAddrInst Src Dest \<Rightarrow>
         passesGate (instLoc x) \<and> (linksAllocation F a Src Dest \<or> linksAllocation F a Dest Src)
     | _ \<Rightarrow> False"
    unfolding chained_def list_ex_iff by auto
  from x(2) obtain Src Dest where "instKind x = CopyAddrInst Src Dest" "passesGate (instLoc x)"
    "linksAllocation F a Src Dest \<or> linksAllocation F a Dest Src"
    by (cases "instKind x") auto
  with x(1) show "\<exists>i x Src Dest. (i, x) \<in> set (insts F) \<and> instKind x = CopyAddrInst Src Dest
        \<and> passesGate (instLoc x)
        \<and> (linksAllocation F a Src Dest \<or> linksAllocation F a Dest Src)" by blast
next
  assume "\<exists>i x Src Dest. (i, x) \<in> set (insts F) \<and> instKind x = CopyAddrInst Src Dest
        \<and> passesGate (instLoc x)
        \<and> (linksAllocation F a Src Dest \<or> linksAllocation F a Dest Src)"
  then obtain i x Src Dest where x: "(i, x) \<in> set (insts F)" "instKind x = CopyAddrInst Src Dest"
    "passesGate (instLoc x)" "linksAllocation F a Src Dest \<or> linksAllocation F a Dest Src"
    by blast
  show "chained F a"
    unfolding chained_def list_ex_iff
    by (rule bexI[OF _ x(1)]) (simp add: x(2,3,4))
qed

text \<open>
  Promotion creates no stack allocation behind an operand: what the recognizer finds
  behind an operand after promotion, it found before.
\<close>

lemma redirectValue_instruction:
  "getDef (redirectValue a n v) = SILInstruction b \<Longrightarrow> redirectValue a n v = v \<and> b \<noteq> a"
  by (auto simp: redirectValue_def getDef_def split: if_splits)

lemma mapOperands_copy:
  "mapOperands h k = CopyAddrInst s' d' \<Longrightarrow> \<exists>s d. k = CopyAddrInst s d \<and> s' = h s \<and> d' = h d"
  by (cases k) auto

lemma mapOperands_mark:
  "mapOperands h k = MarkUninitializedInst w' \<Longrightarrow> \<exists>w. k = MarkUninitializedInst w \<and> w' = h w"
  by (cases k) auto

lemma dyn_cast_AllocStackInst_Some:
  "dyn_cast_AllocStackInst F v = Some b \<longleftrightarrow>
     (getDef v = SILInstruction b \<and> (\<exists>x. getInst F b = Some x \<and> instKind x = AllocStackInst))"
  by (auto simp: dyn_cast_AllocStackInst_def split: ValueBase.splits option.splits InstKind.splits)

lemma dyn_cast_MarkUninitializedInst_Some:
  "dyn_cast_MarkUninitializedInst F v = Some w \<longleftrightarrow>
     (\<exists>m x. getDef v = SILInstruction m \<and> getInst F m = Some x
            \<and> instKind x = MarkUninitializedInst w)"
  by (auto simp: dyn_cast_MarkUninitializedInst_def
      split: ValueBase.splits option.splits InstKind.splits)

lemma shadowTarget_cases:
  "shadowTarget F v = Some b \<longleftrightarrow>
     (dyn_cast_MarkUninitializedInst F v = None \<and> dyn_cast_AllocStackInst F v = Some b)
     \<or> (\<exists>w. dyn_cast_MarkUninitializedInst F v = Some w \<and> dyn_cast_AllocStackInst F w = Some b)"
  by (auto simp: shadowTarget_def split: option.splits)

lemma shadowTarget_promoteShadow:
  assumes wf: "wellFormed G" and arg: "getArg G n = Some A"
    and run: "promoteShadow G a n = Inr G'"
    and t: "shadowTarget G' (redirectValue a n v) = Some b"
  shows "shadowTarget G v = Some b \<and> b \<noteq> a \<and> redirectValue a n v = v"
proof -
  note res = promoteShadow_result[OF wf arg run]
  have alloc: "dyn_cast_AllocStackInst G w = Some b \<and> redirectValue a n w = w \<and> b \<noteq> a"
    if "dyn_cast_AllocStackInst G' (redirectValue a n w) = Some b" for w
  proof -
    from that obtain y where d: "getDef (redirectValue a n w) = SILInstruction b"
      and y: "getInst G' b = Some y" "instKind y = AllocStackInst"
      unfolding dyn_cast_AllocStackInst_Some by blast
    from res(4)[OF y(1)] y(2) obtain x where "getInst G b = Some x"
      "mapOperands (redirectValue a n) (instKind x) = AllocStackInst"
      by auto
    then have "\<exists>x. getInst G b = Some x \<and> instKind x = AllocStackInst"
      by (simp add: mapOperands_alloc)
    with redirectValue_instruction[OF d] d show ?thesis
      unfolding dyn_cast_AllocStackInst_Some by simp
  qed
  from t show ?thesis unfolding shadowTarget_cases
  proof
    assume d: "dyn_cast_MarkUninitializedInst G' (redirectValue a n v) = None
               \<and> dyn_cast_AllocStackInst G' (redirectValue a n v) = Some b"
    with alloc[of v] have v: "dyn_cast_AllocStackInst G v = Some b" "redirectValue a n v = v" "b \<noteq> a"
      by simp_all
    then have "dyn_cast_MarkUninitializedInst G v = None"
      by (auto simp: dyn_cast_AllocStackInst_Some dyn_cast_MarkUninitializedInst_def)
    with v show "(dyn_cast_MarkUninitializedInst G v = None \<and> dyn_cast_AllocStackInst G v = Some b
                  \<or> (\<exists>w. dyn_cast_MarkUninitializedInst G v = Some w \<and> dyn_cast_AllocStackInst G w = Some b))
                 \<and> b \<noteq> a \<and> redirectValue a n v = v"
      by simp
  next
    assume "\<exists>w. dyn_cast_MarkUninitializedInst G' (redirectValue a n v) = Some w
                \<and> dyn_cast_AllocStackInst G' w = Some b"
    then obtain w' m y where d: "getDef (redirectValue a n v) = SILInstruction m"
      and y: "getInst G' m = Some y" "instKind y = MarkUninitializedInst w'"
      and w': "dyn_cast_AllocStackInst G' w' = Some b"
      unfolding dyn_cast_MarkUninitializedInst_Some by blast
    from res(4)[OF y(1)] y(2) obtain x w where x: "getInst G m = Some x"
      "instKind x = MarkUninitializedInst w" "w' = redirectValue a n w"
      by (auto dest!: mapOperands_mark[OF sym])
    from alloc[of w] w' x(3) have w: "dyn_cast_AllocStackInst G w = Some b" "b \<noteq> a" by simp_all
    from redirectValue_instruction[OF d] d x(1,2)
    have "dyn_cast_MarkUninitializedInst G v = Some w" "redirectValue a n v = v"
      unfolding dyn_cast_MarkUninitializedInst_Some by auto
    with w show "(dyn_cast_MarkUninitializedInst G v = None \<and> dyn_cast_AllocStackInst G v = Some b
                  \<or> (\<exists>w. dyn_cast_MarkUninitializedInst G v = Some w \<and> dyn_cast_AllocStackInst G w = Some b))
                 \<and> b \<noteq> a \<and> redirectValue a n v = v"
      by simp
  qed
qed

text \<open>
  A use that the recognizer accepts after promotion: the same copy was in the function
  before, its operands are those of that copy with the allocation replaced by the
  argument, and behind its other operand the recognizer found the same allocation.
\<close>

lemma isCopyToOrFromStack_promoteShadow:
  assumes wf: "wellFormed G" and arg: "getArg G n = Some A"
    and run: "promoteShadow G a n = Inr G'"
    and m: "isCopyToOrFromStack G' UI = Some b"
  shows "isCopyToOrFromStack G UI = Some b" and "b \<noteq> a"
proof -
  note res = promoteShadow_result[OF wf arg run]
  from m obtain y S' D' where y: "getInst G' (getUser UI) = Some y" "instKind y = CopyAddrInst S' D'"
    "passesGate (instLoc y)"
    and t: "shadowTarget G' (if getOperandNumber UI = 0 then D' else S') = Some b"
    unfolding isCopyToOrFromStack_shadowTarget by blast
  from res(4)[OF y(1)] y(2) obtain x S D where x: "getInst G (getUser UI) = Some x"
    "instLoc y = instLoc x" "instKind x = CopyAddrInst S D"
    "S' = redirectValue a n S" "D' = redirectValue a n D"
    by (auto dest!: mapOperands_copy[OF sym])
  from t x(4,5)
  have "shadowTarget G' (redirectValue a n (if getOperandNumber UI = 0 then D else S)) = Some b"
    by (simp split: if_splits)
  from shadowTarget_promoteShadow[OF wf arg run this]
  have "shadowTarget G (if getOperandNumber UI = 0 then D else S) = Some b" "b \<noteq> a" by simp_all
  moreover from x(2) y(3) have "passesGate (instLoc x)" by simp
  ultimately show "isCopyToOrFromStack G UI = Some b" "b \<noteq> a"
    using x(1,3) unfolding isCopyToOrFromStack_shadowTarget by blast+
qed

lemma operandGet_promoteShadow:
  assumes wf: "wellFormed G" and arg: "getArg G n = Some A"
    and run: "promoteShadow G a n = Inr G'"
    and u: "operandGet G' u = Some v'"
  shows "\<exists>v. operandGet G u = Some v \<and> v' = redirectValue a n v"
proof -
  from u obtain y where y: "getInst G' (getUser u) = Some y"
    "getOperandNumber u < length (getAllOperands (instKind y))"
    "v' = getAllOperands (instKind y) ! getOperandNumber u"
    by (auto simp: operandGet_def split: option.splits if_splits)
  from promoteShadow_result(4)[OF wf arg run y(1)] obtain x where x: "getInst G (getUser u) = Some x"
    "instKind y = mapOperands (redirectValue a n) (instKind x)" by blast
  have "getAllOperands (mapOperands h k) = map h (getAllOperands k)" for h k
    by (cases k) auto
  with x y show ?thesis by (simp add: operandGet_def)
qed

lemma argUses_promoteShadow:
  assumes wf: "wellFormed G" and arg: "getArg G n = Some A"
    and run: "promoteShadow G a n = Inr G'"
    and q: "getArg G' q = Some A'" "UI \<in> set (argUses A')"
  obtains (old) Aq where "getArg G q = Some Aq" "UI \<in> set (argUses Aq)"
    | (new) r where "q = n" "operandGet G UI = Some (SILInstruction a, r)"
proof -
  from q(1) have "getUses G' (SILArgument q) = Some (argUses A')" by (simp add: getUses_def)
  from wellFormed_use[OF promoteShadow_result(1)[OF wf arg run] this q(2)]
  obtain r where "operandGet G' UI = Some (SILArgument q, r)" by blast
  from operandGet_promoteShadow[OF wf arg run this] obtain v where
    v: "operandGet G UI = Some v" "(SILArgument q, r) = redirectValue a n v" by blast
  show thesis
  proof (cases "getDef v = SILInstruction a")
    case True
    with v(2) have "q = n" by (simp add: redirectValue_def)
    moreover from True v(1) have "operandGet G UI = Some (SILInstruction a, snd v)"
      by (cases v) (simp add: getDef_def)
    ultimately show thesis by (rule new)
  next
    case False
    with v(2) have "v = (SILArgument q, r)" by (simp add: redirectValue_def)
    with wellFormed_operand[OF wf v(1)] obtain us where
      "getUses G (SILArgument q) = Some us" "UI \<in> set us" by (auto simp: getDef_def)
    then obtain Aq where "getArg G q = Some Aq" "UI \<in> set (argUses Aq)"
      by (auto simp: getUses_def)
    then show thesis by (rule old)
  qed
qed

lemma shadowsOf_promoteShadow_other:
  assumes wf: "wellFormed G" and arg: "getArg G n = Some A"
    and run: "promoteShadow G a n = Inr G'" and ne: "q \<noteq> n"
  shows "set (shadowsOf G' q) \<subseteq> set (shadowsOf G q)"
proof
  fix b assume "b \<in> set (shadowsOf G' q)"
  then obtain A' UI where q: "getArg G' q = Some A'" "UI \<in> set (argUses A')"
    and m: "isCopyToOrFromStack G' UI = Some b"
    unfolding shadowsOf_iff by blast
  from wf arg run q show "b \<in> set (shadowsOf G q)"
  proof (cases rule: argUses_promoteShadow)
    case (old Aq)
    with isCopyToOrFromStack_promoteShadow(1)[OF wf arg run m] show ?thesis
      unfolding shadowsOf_iff by blast
  next
    case (new r)
    with ne show ?thesis by simp
  qed
qed

lemma chained_promoteShadow:
  assumes wf: "wellFormed G" and arg: "getArg G n = Some A"
    and run: "promoteShadow G a n = Inr G'" and c: "chained G' c"
  shows "chained G c"
proof -
  note res = promoteShadow_result[OF wf arg run]
  from c obtain i y S' D' where y: "(i, y) \<in> set (insts G')" "instKind y = CopyAddrInst S' D'"
    "passesGate (instLoc y)"
    and l: "linksAllocation G' c S' D' \<or> linksAllocation G' c D' S'"
    unfolding chained_iff by blast
  from y(1) wellFormed_distinct[OF res(1)] have "getInst G' i = Some y"
    by (simp add: getInst_def)
  from res(4)[OF this] y(2) obtain x S D where x: "getInst G i = Some x"
    "instLoc y = instLoc x" "instKind x = CopyAddrInst S D"
    "S' = redirectValue a n S" "D' = redirectValue a n D"
    by (auto dest!: mapOperands_copy[OF sym])
  have link: "linksAllocation G c u v"
    if "linksAllocation G' c (redirectValue a n u) (redirectValue a n v)" for u v
  proof -
    from that obtain b where d: "getDef (redirectValue a n u) = SILInstruction c"
      and t: "shadowTarget G' (redirectValue a n v) = Some b" and b: "b \<noteq> c"
      by (auto simp: linksAllocation_def split: option.splits)
    from redirectValue_instruction[OF d] d shadowTarget_promoteShadow[OF wf arg run t] b
    show ?thesis by (simp add: linksAllocation_def)
  qed
  from l x(4,5) have "linksAllocation G c S D \<or> linksAllocation G c D S"
    by (auto intro: link)
  moreover from x(1) have "(i, x) \<in> set (insts G)"
    by (auto simp: getInst_def dest: map_of_SomeD)
  moreover from x(2) y(3) have "passesGate (instLoc x)" by simp
  ultimately show ?thesis using x(3) unfolding chained_iff by blast
qed

lemma singleShadow_promoteShadow_other:
  assumes wf: "wellFormed G" and arg: "getArg G n = Some A"
    and run: "promoteShadow G a n = Inr G'" and ne: "q \<noteq> n"
    and s: "singleShadow G q"
  shows "singleShadow G' q"
  using s shadowsOf_promoteShadow_other[OF wf arg run ne] chained_promoteShadow[OF wf arg run]
  unfolding singleShadow_iff by blast

lemma shadowsOf_promoteShadow_same:
  assumes wf: "wellFormed G" and arg: "getArg G n = Some A"
    and f: "findShadow G (argUses A) = Some a"
    and run: "promoteShadow G a n = Inr G'"
    and s: "singleShadow G n"
  shows "shadowsOf G' n = []"
proof (rule ccontr)
  assume "shadowsOf G' n \<noteq> []"
  then obtain b where "b \<in> set (shadowsOf G' n)" by (cases "shadowsOf G' n") auto
  then obtain A' UI where q: "getArg G' n = Some A'" "UI \<in> set (argUses A')"
    and m: "isCopyToOrFromStack G' UI = Some b"
    unfolding shadowsOf_iff by blast
  note before = isCopyToOrFromStack_promoteShadow[OF wf arg run m]
  note a = findShadow_in_shadowsOf[OF arg f]
  from wf arg run q show False
  proof (cases rule: argUses_promoteShadow)
    case (old Aq)
    with before(1) have "b \<in> set (shadowsOf G n)" unfolding shadowsOf_iff by blast
    with s a before(2) show False unfolding singleShadow_iff by blast
  next
    case (new r)
    from before(1) obtain x S D where x: "getInst G (getUser UI) = Some x"
      "instKind x = CopyAddrInst S D" "passesGate (instLoc x)"
      and t: "shadowTarget G (if getOperandNumber UI = 0 then D else S) = Some b"
      unfolding isCopyToOrFromStack_shadowTarget by blast
    from new(2) x(1,2) have "(getOperandNumber UI = 0 \<and> S = (SILInstruction a, r))
        \<or> (getOperandNumber UI = 1 \<and> D = (SILInstruction a, r))"
      by (auto simp: operandGet_def less_Suc_eq nth_Cons' split: if_splits)
    with t before(2) have "linksAllocation G a S D \<or> linksAllocation G a D S"
      by (auto simp: linksAllocation_def getDef_def)
    moreover from x(1) have "(getUser UI, x) \<in> set (insts G)"
      by (auto simp: getInst_def dest: map_of_SomeD)
    ultimately have "chained G a" using x(2,3) unfolding chained_iff by blast
    with s a show False unfolding singleShadow_iff by blast
  qed
qed

lemma runParameters_shadowsOf:
  assumes "wellFormed F" "runParameters params arg F st = Inr (F', st')" "q < arg"
  shows "set (shadowsOf F' q) \<subseteq> set (shadowsOf F q)"
  using assms
proof (induction params arbitrary: arg F st)
  case Nil
  then show ?case by simp
next
  case (Cons isIndirectInOut params)
  show ?case
  proof (cases isIndirectInOut)
    case False
    with Cons.prems(2) have "runParameters params (Suc arg) F st = Inr (F', st')" by simp
    from Cons.IH[OF Cons.prems(1) this] Cons.prems(3) show ?thesis by simp
  next
    case True
    with Cons.prems have "runParameters (True # params) arg F st = Inr (F', st')" by simp
    then show ?thesis
    proof (cases rule: runParameters_Cons_True)
      case (1 promoted F1)
      from processInOutValue_wellFormed[OF Cons.prems(1) 1(1)] have wf1: "wellFormed F1" by simp
      from Cons.IH[OF wf1 1(2)] Cons.prems(3)
      have rest: "set (shadowsOf F' q) \<subseteq> set (shadowsOf F1 q)" by simp
      from 1(1) show ?thesis
      proof (cases rule: processInOutValue_cases)
        case kept
        with rest show ?thesis by simp
      next
        case (removed a A)
        from shadowsOf_promoteShadow_other[OF Cons.prems(1) removed(2,5), of q] Cons.prems(3) rest
        show ?thesis by auto
      qed
    qed
  qed
qed

lemma singleShadowsFrom_promoteShadow:
  assumes "wellFormed G" "getArg G n = Some A" "promoteShadow G a n = Inr G'"
    and "n < arg" "singleShadowsFrom params arg G"
  shows "singleShadowsFrom params arg G'"
  using assms(4,5)
proof (induction params arbitrary: arg)
  case Nil
  then show ?case by simp
next
  case (Cons isIndirectInOut params)
  from Cons.prems(1) have "arg \<noteq> n" "n < Suc arg" by simp_all
  with Cons.IH[of "Suc arg"] Cons.prems(2)
    singleShadow_promoteShadow_other[OF assms(1,2,3), of arg]
  show ?case by auto
qed

lemma processInOutValue_kept:
  assumes "processInOutValue F n = Inr (False, F1)"
  shows "F1 = F \<and> shadowsOf F n = []"
proof -
  from assms obtain A where A: "getArg F n = Some A" "findShadow F (argUses A) = None" "F1 = F"
    by (auto simp: processInOutValue_def split: option.splits if_splits sum.splits)
  with findShadow_shadowsOf[OF A(1)] show ?thesis by simp
qed

lemma noShadow_head:
  "shadowsOf F q = [] \<Longrightarrow>
   (case getArg F q of None \<Rightarrow> True | Some A \<Rightarrow> findShadow F (argUses A) = None)"
  by (cases "getArg F q") (simp_all add: findShadow_shadowsOf)

lemma runParameters_singleShadows:
  assumes "wellFormed F" "runParameters params arg F st = Inr (F', st')"
    "singleShadowsFrom params arg F"
  shows "noShadowFrom params arg F'"
  using assms
proof (induction params arbitrary: arg F st)
  case Nil
  then show ?case by simp
next
  case (Cons isIndirectInOut params)
  show ?case
  proof (cases isIndirectInOut)
    case False
    with Cons.prems have "runParameters params (Suc arg) F st = Inr (F', st')"
      "singleShadowsFrom params (Suc arg) F" by simp_all
    from Cons.IH[OF Cons.prems(1) this] False show ?thesis by simp
  next
    case True
    with Cons.prems have s: "singleShadow F arg" "singleShadowsFrom params (Suc arg) F"
      by simp_all
    from True Cons.prems have "runParameters (True # params) arg F st = Inr (F', st')" by simp
    then show ?thesis
    proof (cases rule: runParameters_Cons_True)
      case (1 promoted F1)
      from processInOutValue_wellFormed[OF Cons.prems(1) 1(1)] have wf1: "wellFormed F1" by simp
      have "shadowsOf F1 arg = [] \<and> singleShadowsFrom params (Suc arg) F1"
      proof (cases promoted)
        case False
        with 1(1) processInOutValue_kept[of F arg F1] s(2) show ?thesis by simp
      next
        case p: True
        from 1(1) show ?thesis
        proof (cases rule: processInOutValue_cases)
          case kept
          with p show ?thesis by simp
        next
          case (removed a A)
          from shadowsOf_promoteShadow_same[OF Cons.prems(1) removed(2,4,5) s(1)]
            singleShadowsFrom_promoteShadow[OF Cons.prems(1) removed(2,5) _ s(2)]
          show ?thesis by simp
        qed
      qed
      then have e: "shadowsOf F1 arg = []" and r: "singleShadowsFrom params (Suc arg) F1"
        by simp_all
      from runParameters_shadowsOf[OF wf1 1(2), of arg] e have "shadowsOf F' arg = []" by simp
      from noShadow_head[OF this] Cons.IH[OF wf1 1(2) r] show ?thesis by simp
    qed
  qed
qed

section \<open>The effect of the promoter\<close>

lemma promoteShadow_effect:
  assumes "wellFormed F" "promotable F Alloc" "getArg F InOutArg = Some A"
  shows "\<exists>F'. promoteShadow F Alloc InOutArg = Inr F'
           \<and> wellFormed F'
           \<and> getInst F' Alloc = None
           \<and> (\<forall>u v. operandGet F' u = Some v \<longrightarrow> getDef v \<noteq> SILInstruction Alloc)
           \<and> (\<forall>i x. getInst F i = Some x \<longrightarrow> i \<noteq> Alloc \<longrightarrow>
                 (if erasedByPromotion Alloc InOutArg (instKind x) then getInst F' i = None
                  else \<exists>y. getInst F' i = Some y \<and> instLoc y = instLoc x
                         \<and> instKind y = mapOperands (redirectValue Alloc InOutArg) (instKind x)))"
proof -
  from promoteShadow_returns[OF assms] obtain F' where run: "promoteShadow F Alloc InOutArg = Inr F'" ..
  note res = promoteShadow_result[OF assms(1,3) run]
  have "if erasedByPromotion Alloc InOutArg (instKind x) then getInst F' i = None
        else \<exists>y. getInst F' i = Some y \<and> instLoc y = instLoc x
               \<and> instKind y = mapOperands (redirectValue Alloc InOutArg) (instKind x)"
    if "getInst F i = Some x" "i \<noteq> Alloc" for i x
  proof (cases "erasedByPromotion Alloc InOutArg (instKind x)")
    case True
    with res(3)[OF that] show ?thesis by simp
  next
    case False
    with res(3)[OF that] obtain y where y: "getInst F' i = Some y" by auto
    from res(4)[OF y] that(1) False y show ?thesis by auto
  qed
  with run res(1,2,5) show ?thesis by blast
qed

section \<open>The claims\<close>

text \<open>
  Claim C1 (the promoter), at Scenario C. In \<open>markedShadowFunction\<close> the copy-in of the
  shadow is the copy in instruction 2: the recognizer, which looks through the
  mark-uninitialized wrapper, certifies it as a copy from the argument to the
  allocation. The promoter inspects the direct users of the allocation only. It
  redirects the wrapper to the argument and erases the copy-out, the deallocation and
  the allocation, but it leaves the copy-in in the function, now a copy from the
  argument to the wrapped argument.
\<close>

theorem promoteShadow_keeps_wrapped_copy:
  "wellFormed markedShadowFunction \<and> promotable markedShadowFunction 0
   \<and> isCopyToOrFromStack markedShadowFunction (2, 0) = Some 0
   \<and> promoteShadow markedShadowFunction 0 0 = Inr markedShadowPromoted
   \<and> processInOutValue markedShadowFunction 0 = Inr (True, markedShadowPromoted)
   \<and> getInst markedShadowPromoted 2 =
       Some \<lparr>instKind = CopyAddrInst (SILArgument 0, 0) (SILInstruction 1, 0),
              instLoc = autoLoc, instUses = []\<rparr>"
  by code_simp

theorem promoteShadow_keeps_wrapped_copy_witness:
  "\<exists>F'. processInOutValue markedShadowFunction 0 = Inr (True, F')
      \<and> map_option instKind (getInst F' 2)
          = Some (CopyAddrInst (SILArgument 0, 0) (SILInstruction 1, 0))"
  using promoteShadow_keeps_wrapped_copy by simp




text \<open>
  Claim C3 (the recognizer). In a function whose copies and wrappers take addresses,
  \<^verbatim>\<open>isCopyToOrFromStack\<close> answers the allocation \<open>a\<close> for a use \<open>UI\<close> exactly when the
  owner of the use is a memory copy that passes the provenance gate and whose other
  operand (the destination for a use in slot 0, the source otherwise), looked through
  one mark-uninitialized wrapper, is exactly the address result of the stack
  allocation \<open>a\<close>; in every other case it answers null. The recognizer is a function
  of the IR and returns nothing but its answer, so it changes nothing.
\<close>

theorem isCopyToOrFromStack_iff:
  assumes "takesAddresses F"
  shows "isCopyToOrFromStack F UI = Some a \<longleftrightarrow> shadowCopy F UI a"
proof -
  have member: "(i, x) \<in> set (insts F)" if "getInst F i = Some x" for i x
    using that by (auto simp: getInst_def dest: map_of_SomeD)
  have copy: "addressOperand F s \<and> addressOperand F d"
    if "getInst F i = Some x" "instKind x = CopyAddrInst s d" for i x s d
    using assms member[OF that(1)] that(2) by (auto simp: takesAddresses_def list_all_iff)
  have wrapper: "addressOperand F v"
    if "getInst F i = Some x" "instKind x = MarkUninitializedInst v" for i x v
    using assms member[OF that(1)] that(2) by (auto simp: takesAddresses_def list_all_iff)
  have cast: "dyn_cast_AllocStackInst F v = Some a \<longleftrightarrow> getDef v = SILInstruction a \<and> isAllocStack F a" for v
    by (auto simp: dyn_cast_AllocStackInst_def isAllocStack_def
        split: ValueBase.splits option.splits InstKind.splits)
  have look: "(case dyn_cast_MarkUninitializedInst F v of Some w \<Rightarrow> w | None \<Rightarrow> v)
                = lookThroughMarkUninitialized F v" for v
    by (auto simp: dyn_cast_MarkUninitializedInst_def lookThroughMarkUninitialized_def
        split: ValueBase.splits option.splits InstKind.splits)
  have address: "addressOperand F (lookThroughMarkUninitialized F v)" if "addressOperand F v" for v
  proof (cases "lookThroughMarkUninitialized F v = v")
    case True
    with that show ?thesis by simp
  next
    case False
    then obtain i x where "getInst F i = Some x"
      "instKind x = MarkUninitializedInst (lookThroughMarkUninitialized F v)"
      by (auto simp: lookThroughMarkUninitialized_def
          split: ValueBase.splits option.splits InstKind.splits)
    then show ?thesis by (rule wrapper)
  qed
  have exact: "getDef v = SILInstruction a \<and> isAllocStack F a \<longleftrightarrow> v = addressResult a \<and> isAllocStack F a"
    if "addressOperand F v" for v
    using that by (auto simp: addressOperand_def addressResult_def getDef_def)
  show ?thesis
  proof (cases "getInst F (getUser UI)")
    case None
    then show ?thesis by (simp add: isCopyToOrFromStack_def shadowCopy_def)
  next
    case (Some CAI)
    show ?thesis
    proof (cases "\<exists>Src Dest. instKind CAI = CopyAddrInst Src Dest")
      case False
      with Some show ?thesis
        by (auto simp: isCopyToOrFromStack_def shadowCopy_def split: InstKind.splits)
    next
      case True
      then obtain Src Dest where k: "instKind CAI = CopyAddrInst Src Dest" by blast
      from copy[OF Some k]
      have "addressOperand F (if getOperandNumber UI = 0 then Dest else Src)" by simp
      from exact[OF address[OF this]] Some k show ?thesis
        by (simp add: isCopyToOrFromStack_def shadowCopy_def passesGate_def Let_def cast look)
    qed
  qed
qed

theorem isCopyToOrFromStack_iff_witness:
  "takesAddresses markedShadowFunction \<and> takesAddresses userCopyFunction
   \<and> isCopyToOrFromStack markedShadowFunction (2, 0) = Some 0
   \<and> isCopyToOrFromStack userCopyFunction (1, 0) = None"
proof -
  have t: "takesAddresses markedShadowFunction" "takesAddresses userCopyFunction"
    by code_simp+
  have "shadowCopy markedShadowFunction (2, 0) 0" by code_simp
  moreover have "\<not> shadowCopy userCopyFunction (1, 0) a" for a
    by (simp add: shadowCopy_def userCopyFunction_def getInst_def getUser_def
        userLoc_def passesGate_def isAutoGenerated_def isSILFileLocation_def)
  ultimately show ?thesis
    using isCopyToOrFromStack_iff[OF t(1), of "(2, 0)" 0]
      isCopyToOrFromStack_iff[OF t(2), of "(1, 0)"] t
    by (cases "isCopyToOrFromStack userCopyFunction (1, 0)") auto
qed

text \<open>
  Claim C4 (the two entry points). On a function with a body the module driver and
  \<^verbatim>\<open>runOnFunction\<close> do the same: the same loop over the parameters, on the arguments
  of the entry block, with the same counters. On a declaration without a body the
  module driver skips the function; \<^verbatim>\<open>runOnFunction\<close> has no such test and takes the
  front of an empty block list.
\<close>

theorem entry_points:
  "(entryBBArgs F \<noteq> None \<longrightarrow>
      performInOutDeshadowing [F] st =
        (case runOnFunction F st of Inl e \<Rightarrow> Inl e | Inr (F', st') \<Rightarrow> Inr ([F'], st')))
   \<and> (entryBBArgs F = None \<longrightarrow>
        performInOutDeshadowing [F] st = Inr ([F], st) \<and> runOnFunction F st = Inl FrontOfEmpty)"
  by (auto simp: runOnFunction_def runParameters_performParameters split: sum.splits option.splits)

theorem entry_points_witness:
  "performInOutDeshadowing [declarationFunction] noStatistics = Inr ([declarationFunction], noStatistics)
   \<and> runOnFunction declarationFunction noStatistics = Inl FrontOfEmpty
   \<and> performInOutDeshadowing [userCopyFunction] noStatistics =
       (case runOnFunction userCopyFunction noStatistics of
          Inl e \<Rightarrow> Inl e | Inr (F', st') \<Rightarrow> Inr ([F'], st'))"
proof -
  have "entryBBArgs declarationFunction = None" by (simp add: declarationFunction_def)
  moreover have "entryBBArgs userCopyFunction \<noteq> None" by (simp add: userCopyFunction_def)
  ultimately show ?thesis
    using entry_points[of declarationFunction noStatistics]
      entry_points[of userCopyFunction noStatistics]
    by blast
qed

text \<open>
  Claim C5 (conservation). When the recognizer matches no use of the in-out argument,
  \<^verbatim>\<open>processInOutValue\<close> answers false and the function it leaves is the function it
  received: the same instructions with the same operands and the same use lists.
\<close>

theorem processInOutValue_no_match:
  assumes "getArg F InOutArg = Some A" "argIsAddress A"
    and "\<forall>UI \<in> set (argUses A). isCopyToOrFromStack F UI = None"
  shows "processInOutValue F InOutArg = Inr (False, F)"
  using assms by (simp add: processInOutValue_def findShadow_None[THEN iffD2])

theorem processInOutValue_no_match_witness:
  "processInOutValue userCopyFunction 0 = Inr (False, userCopyFunction)"
proof (rule processInOutValue_no_match)
  show "getArg userCopyFunction 0 = Some \<lparr>argIsAddress = True, argUses = [(1, 0)]\<rparr>"
    by (simp add: getArg_def userCopyFunction_def)
  show "argIsAddress \<lparr>argIsAddress = True, argUses = [(1, 0)]\<rparr>" by simp
  show "\<forall>UI \<in> set (argUses \<lparr>argIsAddress = True, argUses = [(1, 0)]\<rparr>).
          isCopyToOrFromStack userCopyFunction UI = None"
    by (simp add: isCopyToOrFromStack_def userCopyFunction_def getInst_def getUser_def
        userLoc_def isAutoGenerated_def isSILFileLocation_def)
qed

text \<open>
  Claim C6 (the scan). \<^verbatim>\<open>processInOutValue\<close> walks the use list of the argument in
  its order. At the first use the recognizer accepts it calls the promoter on the
  allocation the recognizer returned and answers true with the promoter's result;
  whatever uses come later in the list play no part. On a well-formed function the
  call erases exactly one stack allocation.
\<close>

theorem processInOutValue_first_match:
  assumes "getArg F InOutArg = Some A" "argIsAddress A"
    and "argUses A = before @ UI # after"
    and "\<forall>u \<in> set before. isCopyToOrFromStack F u = None"
    and "isCopyToOrFromStack F UI = Some ASI"
  shows "processInOutValue F InOutArg =
           (case promoteShadow F ASI InOutArg of Inl e \<Rightarrow> Inl e | Inr F' \<Rightarrow> Inr (True, F'))
         \<and> (\<forall>F'. wellFormed F \<and> promoteShadow F ASI InOutArg = Inr F'
               \<longrightarrow> allocCount F' + 1 = allocCount F)"
proof -
  from findShadow_first[OF assms(4,5)] assms(3)
  have f: "findShadow F (argUses A) = Some ASI" by simp
  with assms(1,2) have "processInOutValue F InOutArg =
      (case promoteShadow F ASI InOutArg of Inl e \<Rightarrow> Inl e | Inr F' \<Rightarrow> Inr (True, F'))"
    by (simp add: processInOutValue_def)
  moreover have "allocCount F' + 1 = allocCount F"
    if "wellFormed F" "promoteShadow F ASI InOutArg = Inr F'" for F'
    using allocCount_promoteShadow[OF that(1) assms(1) findShadow_isAllocStack[OF f] that(2)] .
  ultimately show ?thesis by blast
qed

theorem processInOutValue_first_match_witness:
  "\<exists>F'. processInOutValue shadowFunction 0 = Inr (True, F') \<and> promoteShadow shadowFunction 0 0 = Inr F'
        \<and> allocCount shadowFunction = 1 \<and> allocCount F' = 0"
proof -
  have arg: "getArg shadowFunction 0 = Some \<lparr>argIsAddress = True, argUses = [(2, 1), (1, 0)]\<rparr>"
    by (simp add: getArg_def shadowFunction_def)
  have m: "isCopyToOrFromStack shadowFunction (2, 1) = Some 0" by code_simp
  from promoteShadow_returns[OF shadowFunction_wellFormed shadowFunction_promotable arg]
  obtain F' where run: "promoteShadow shadowFunction 0 0 = Inr F'" ..
  have "processInOutValue shadowFunction 0 =
           (case promoteShadow shadowFunction 0 0 of Inl e \<Rightarrow> Inl e | Inr F' \<Rightarrow> Inr (True, F'))
         \<and> (\<forall>F'. wellFormed shadowFunction \<and> promoteShadow shadowFunction 0 0 = Inr F'
               \<longrightarrow> allocCount F' + 1 = allocCount shadowFunction)"
    by (rule processInOutValue_first_match[OF arg, where before = "[]" and UI = "(2, 1)" and after = "[(1, 0)]"])
       (insert m, simp_all)
  moreover have "allocCount shadowFunction = 1" by code_simp
  ultimately show ?thesis using run shadowFunction_wellFormed by auto
qed

text \<open>
  Claim C7 (the counters). The module driver skips a declaration without a body and
  processes every other function. With \<open>k\<close> the number of parameters of the indirect
  in-out convention of a processed function and \<open>m\<close> the number of them that the run
  promotes (both 0 for a declaration), \<open>m\<close> is at most \<open>k\<close>, the function loses exactly
  \<open>m\<close> stack allocations, and over the functions of a well-formed module the counter of
  removed shadows grows by the sum of the \<open>m\<close> and the counter of kept shadows by the sum
  of the \<open>k - m\<close>, in the 32-bit arithmetic of the counters.
\<close>

theorem counters_correct:
  assumes "list_all wellFormed M" "performInOutDeshadowing M st = Inr (M', st')"
  shows "list_all2 (\<lambda>Fn Fn'. allocCount Fn' + promotedCount Fn = allocCount Fn
                              \<and> promotedCount Fn \<le> processedInOut Fn) M M'
         \<and> NumShadowsRemoved st' = NumShadowsRemoved st + of_nat (sum_list (map promotedCount M))
         \<and> NumShadowsKept st' = NumShadowsKept st
              + of_nat (sum_list (map (\<lambda>Fn. processedInOut Fn - promotedCount Fn) M))"
  using assms
proof (induction M arbitrary: st M')
  case Nil
  then show ?case by simp
next
  case (Cons Fn M)
  from Cons.prems(1) have wf: "wellFormed Fn" "list_all wellFormed M" by simp_all
  from Cons.prems(2) show ?case
  proof (cases rule: performInOutDeshadowing_Cons)
    case (skipped M1)
    from Cons.IH[OF wf(2) skipped(3)] skipped(1,2) show ?thesis
      by (simp add: promotedCount_def processedInOut_def)
  next
    case (processed Fn' st1 M1)
    note one = performParameters_promotions[OF wf(1) processed(3,1)]
    from Cons.IH[OF wf(2) processed(4)] one(2-) processed(2) show ?thesis
      by (simp add: add.assoc)
  qed
qed

theorem counters_correct_witness:
  "\<exists>M' st'. performInOutDeshadowing [declarationFunction, mixedFunction, shadowFunction] noStatistics
               = Inr (M', st')
      \<and> map processedInOut [declarationFunction, mixedFunction, shadowFunction] = [0, 2, 1]
      \<and> map promotedCount [declarationFunction, mixedFunction, shadowFunction] = [0, 1, 1]
      \<and> map allocCount [declarationFunction, mixedFunction, shadowFunction] = [0, 2, 1]
      \<and> map allocCount M' = [0, 1, 0]
      \<and> NumShadowsRemoved st' = 2 \<and> NumShadowsKept st' = 1"
proof -
  have wf: "list_all wellFormed [declarationFunction, mixedFunction, shadowFunction]"
    by code_simp
  have run: "performInOutDeshadowing [declarationFunction, mixedFunction, shadowFunction] noStatistics =
      Inr ([declarationFunction, mixedPromoted, shadowPromoted],
           \<lparr> NumShadowsRemoved = 2, NumShadowsKept = 1 \<rparr>)"
    by code_simp
  have k: "map processedInOut [declarationFunction, mixedFunction, shadowFunction] = [0, 2, 1]"
    by code_simp
  have m: "map promotedCount [declarationFunction, mixedFunction, shadowFunction] = [0, 1, 1]"
    by code_simp
  have a: "map allocCount [declarationFunction, mixedFunction, shadowFunction] = [0, 2, 1]"
    by code_simp
  from counters_correct[OF wf run] k m a
  have "map allocCount [declarationFunction, mixedPromoted, shadowPromoted] = [0, 1, 0]"
    by simp
  with run k m a show ?thesis by simp
qed

text \<open>
  Claim C8 (a second run). Let every in-out parameter of a well-formed function have a
  single shadow: the uses of its argument that the recognizer accepts all name one
  stack allocation, and no copy that passes the gate has a result of that allocation
  as one operand and another stack allocation behind the other. Then a second run
  returns the function that the first run returned, and counts every in-out parameter
  as kept.
\<close>

theorem second_run_unchanged:
  assumes "wellFormed F" "singleShadows F" "runOnFunction F st = Inr (F1, st1)"
  shows "runOnFunction F1 st1 =
           Inr (F1, st1\<lparr>NumShadowsKept :=
                          NumShadowsKept st1 + of_nat (inOutCount (interfaceParameters F))\<rparr>)"
proof -
  from assms(3) obtain EntryBlock where e: "entryBBArgs F = Some EntryBlock"
    and run: "runParameters (interfaceParameters F) 0 F st = Inr (F1, st1)"
    by (auto simp: runOnFunction_def split: option.splits)
  from runParameters_accepted[OF run]
  have acc: "argsAccepted (interfaceParameters F) 0 (argShape F1)"
    and sh: "argShape F1 = argShape F" and ps: "interfaceParameters F1 = interfaceParameters F"
    by simp_all
  from sh e obtain EntryBlock1 where e1: "entryBBArgs F1 = Some EntryBlock1"
    by (auto simp: argShape_def)
  from assms(2) have "singleShadowsFrom (interfaceParameters F) 0 F"
    by (simp add: singleShadows_def)
  from runParameters_singleShadows[OF assms(1) run this]
  have "noShadowFrom (interfaceParameters F) 0 F1" .
  from runParameters_noShadow[OF acc this] e1 ps show ?thesis
    by (simp add: runOnFunction_def)
qed

theorem second_run_unchanged_witness:
  "wellFormed userVarFunction \<and> singleShadows userVarFunction \<and> allocCount userVarFunction = 2
   \<and> runOnFunction userVarFunction noStatistics =
       Inr (userVarPromoted, \<lparr> NumShadowsRemoved = 1, NumShadowsKept = 0 \<rparr>)
   \<and> runOnFunction userVarPromoted \<lparr> NumShadowsRemoved = 1, NumShadowsKept = 0 \<rparr> =
       Inr (userVarPromoted, \<lparr> NumShadowsRemoved = 1, NumShadowsKept = 1 \<rparr>)"
proof -
  have wf: "wellFormed userVarFunction" by code_simp
  have s: "singleShadows userVarFunction" by code_simp
  have a: "allocCount userVarFunction = 2" by code_simp
  have run: "runOnFunction userVarFunction noStatistics =
      Inr (userVarPromoted, \<lparr> NumShadowsRemoved = 1, NumShadowsKept = 0 \<rparr>)"
    by code_simp
  have k: "inOutCount (interfaceParameters userVarFunction) = 1"
    by (simp add: inOutCount_def userVarFunction_def)
  from second_run_unchanged[OF wf s run] k wf s a run show ?thesis by simp
qed

text \<open>
  The argument of \<open>twoShadowsFunction\<close> has autogenerated copies to two allocations. The
  first run promotes the allocation of the first use in the list and leaves the other;
  the second run promotes that one. In \<open>chainFunction\<close> an autogenerated copy goes from
  the shadow to a second allocation: the first run redirects it into a copy from the
  argument, which the second run recognizes. In both the body after two runs is not
  the body after one.
\<close>

theorem second_run_counterexample:
  "wellFormed twoShadowsFunction \<and> shadowsOf twoShadowsFunction 0 = [2, 0]
   \<and> runOnFunction twoShadowsFunction noStatistics =
       Inr (oneShadowLeft, \<lparr> NumShadowsRemoved = 1, NumShadowsKept = 0 \<rparr>)
   \<and> runOnFunction oneShadowLeft \<lparr> NumShadowsRemoved = 1, NumShadowsKept = 0 \<rparr> =
       Inr (promotedResult, \<lparr> NumShadowsRemoved = 2, NumShadowsKept = 0 \<rparr>)
   \<and> insts oneShadowLeft \<noteq> insts promotedResult
   \<and> \<not> singleShadows twoShadowsFunction
   \<and> wellFormed chainFunction \<and> shadowsOf chainFunction 0 = [0] \<and> chained chainFunction 0
   \<and> runOnFunction chainFunction noStatistics =
       Inr (chainPromoted, \<lparr> NumShadowsRemoved = 1, NumShadowsKept = 0 \<rparr>)
   \<and> runOnFunction chainPromoted \<lparr> NumShadowsRemoved = 1, NumShadowsKept = 0 \<rparr> =
       Inr (promotedResult, \<lparr> NumShadowsRemoved = 2, NumShadowsKept = 0 \<rparr>)
   \<and> insts chainPromoted \<noteq> insts promotedResult
   \<and> \<not> singleShadows chainFunction"
  by code_simp

text \<open>
  Claim C9 (termination). Every function of the model is total: the loops over the use
  list and over the parameters are structural, and the loop of the promoter is defined
  with the length of the allocation's use list as its measure. A round of that loop
  that continues leaves the allocation with strictly fewer uses, the loop makes at most
  as many rounds as the allocation has uses, and on a well-formed function with a
  promotable allocation the promoter returns a function (no assertion stops it).
\<close>

theorem promoteShadow_terminates:
  "(promoteShadowStep F Alloc InOutArg = Continue G \<longrightarrow> useCount G Alloc < useCount F Alloc)
   \<and> promoteShadowRounds F Alloc InOutArg \<le> useCount F Alloc
   \<and> (wellFormed F \<and> promotable F Alloc \<and> getArg F InOutArg = Some A
        \<longrightarrow> (\<exists>F'. promoteShadow F Alloc InOutArg = Inr F'))"
  using promoteShadowStep_useCount[of F Alloc InOutArg G] promoteShadowRounds_le[of F Alloc InOutArg]
    promoteShadow_returns[of F Alloc InOutArg A]
  by blast

theorem promoteShadow_terminates_witness:
  "promoteShadowRounds shadowFunction 0 0 = 4 \<and> useCount shadowFunction 0 = 4
   \<and> (\<exists>F'. promoteShadow shadowFunction 0 0 = Inr F')"
proof -
  have arg: "getArg shadowFunction 0 = Some \<lparr>argIsAddress = True, argUses = [(2, 1), (1, 0)]\<rparr>"
    by (simp add: getArg_def shadowFunction_def)
  have u: "useCount shadowFunction 0 = 4"
    by (simp add: useCount_def shadowFunction_def getInst_def)
  have "4 \<le> promoteShadowRounds shadowFunction 0 0" by code_simp
  with promoteShadow_terminates[of shadowFunction 0 0 shadowFunction
      "\<lparr>argIsAddress = True, argUses = [(2, 1), (1, 0)]\<rparr>"]
    shadowFunction_wellFormed shadowFunction_promotable arg u
  show ?thesis by auto
qed

text \<open>
  Claim C10 (copies are erased whatever their provenance). When \<open>promoteShadow\<close> returns,
  every memory copy between the allocation and the in-out argument (one operand is the
  argument, the other a result of the allocation) has been erased, whatever its
  location says: the promoter never reads the location of an instruction.
\<close>

theorem promoteShadow_erases_copies:
  assumes "wellFormed F" "getArg F InOutArg = Some A" "promoteShadow F Alloc InOutArg = Inr F'"
    and "getInst F i = Some CAI" "instKind CAI = CopyAddrInst Src Dest"
    and "(Src = (SILArgument InOutArg, 0) \<and> getDef Dest = SILInstruction Alloc)
         \<or> (Dest = (SILArgument InOutArg, 0) \<and> getDef Src = SILInstruction Alloc)"
  shows "getInst F' i = None"
proof (cases "i = Alloc")
  case True
  with promoteShadow_result(2)[OF assms(1,2,3)] show ?thesis by simp
next
  case False
  from assms(5,6) have "erasedByPromotion Alloc InOutArg (instKind CAI)"
    by (auto simp: erasedByPromotion_def)
  with promoteShadow_result(3)[OF assms(1,2,3,4) False] show ?thesis by simp
qed

theorem promoteShadow_erases_copies_witness:
  "map_option instLoc (getInst userCopyOutFunction 2) = Some userLoc
   \<and> \<not> isAutoGenerated userLoc \<and> \<not> isSILFileLocation userLoc
   \<and> (\<exists>F'. promoteShadow userCopyOutFunction 0 0 = Inr F' \<and> getInst F' 2 = None)"
proof -
  have wf: "wellFormed userCopyOutFunction" by code_simp
  have arg: "getArg userCopyOutFunction 0 = Some \<lparr>argIsAddress = True, argUses = [(2, 1), (1, 0)]\<rparr>"
    by (simp add: getArg_def userCopyOutFunction_def)
  have pr: "promotable userCopyOutFunction 0" by code_simp
  from promoteShadow_returns[OF wf pr arg] obtain F' where
    run: "promoteShadow userCopyOutFunction 0 0 = Inr F'" ..
  have i: "getInst userCopyOutFunction 2 =
      Some \<lparr>instKind = CopyAddrInst (SILInstruction 0, 1) (SILArgument 0, 0),
             instLoc = userLoc, instUses = []\<rparr>"
    by (simp add: getInst_def userCopyOutFunction_def)
  have "getInst F' 2 = None"
    by (rule promoteShadow_erases_copies[OF wf arg run i,
          where Src = "(SILInstruction 0, 1)" and Dest = "(SILArgument 0, 0)"])
       (simp_all add: getDef_def)
  with run i show ?thesis
    by (auto simp: userLoc_def isAutoGenerated_def isSILFileLocation_def)
qed

end
